theory Spec2Isabelle
  imports Complex_Main
begin

section \<open>Memory: the caller's sequence buffer and the local codon array\<close>

text \<open>
  \<^verbatim>\<open>codon_usage_tot\<close> reads the caller's string \<^verbatim>\<open>seq\<close> and owns a local array
  \<^verbatim>\<open>char codon[4]\<close>; \<^verbatim>\<open>ident_codon\<close> rewrites, through the pointer it is given, the
  bytes it reads. The two objects are kept apart in a small store, and a pointer names
  an object and an offset into it.

  The field \<open>seq\<close> holds the bytes of the caller's buffer that come before its final
  terminator: a read at offset \<open>length seq\<close> gives that terminator, a read beyond it is
  outside the buffer. A byte of \<open>codon\<close> is \<open>None\<close> until it has been written.
\<close>

text \<open>
  \<^verbatim>\<open>my_exit(99, message)\<close> ends the run; the model returns \<open>Exit 99\<close> with what the
  message tells: a level \<^verbatim>\<open>codon_error\<close> does not know, a CAI value out of range, a
  reference file with the wrong number of entries (the number found), or an illegal
  entry of the classification (the entry and the codon).
\<close>

datatype exit_message =
    ProgrammeError
  | CaiValueOutOfRange
  | CaiFileCount nat
  | FopFileCount nat
  | CbiFileCount nat
  | IllegalFopValue nat nat
  | IllegalCbiValue nat nat

datatype fault = ReadPastEnd | UninitialisedRead | WritePastEnd | Exit nat exit_message

datatype ptr = SeqPtr nat | CodonPtr nat

record memory =
  seq :: "char list"
  codon :: "char option list"

abbreviation NUL :: char where
  "NUL \<equiv> CHR 0x00"

fun ptr_add :: "ptr \<Rightarrow> nat \<Rightarrow> ptr" where
  "ptr_add (SeqPtr i) k = SeqPtr (i + k)"
| "ptr_add (CodonPtr i) k = CodonPtr (i + k)"

fun load :: "memory \<Rightarrow> ptr \<Rightarrow> fault + char" where
  "load m (SeqPtr i) =
     (if i < length (seq m) then Inr (seq m ! i)
      else if i = length (seq m) then Inr NUL
      else Inl ReadPastEnd)"
| "load m (CodonPtr x) =
     (if x < length (codon m)
      then (case codon m ! x of Some c \<Rightarrow> Inr c | None \<Rightarrow> Inl UninitialisedRead)
      else Inl ReadPastEnd)"

text \<open>
  Every store of the modelled code goes to an address inside its object: \<^verbatim>\<open>ident_codon\<close>
  stores where it has just read a byte other than the terminator, \<^verbatim>\<open>strncpy\<close> stores to
  the first three bytes of the four-byte array.
\<close>

fun store :: "memory \<Rightarrow> ptr \<Rightarrow> char \<Rightarrow> memory" where
  "store m (SeqPtr i) c = m\<lparr>seq := (seq m)[i := c]\<rparr>"
| "store m (CodonPtr x) c = m\<lparr>codon := (codon m)[x := Some c]\<rparr>"

text \<open>\<^verbatim>\<open>strlen\<close>: the number of bytes before the first terminator.\<close>

definition strlen :: "char list \<Rightarrow> nat" where
  "strlen s = length (takeWhile (\<lambda>c. c \<noteq> NUL) s)"

text \<open>
  \<^verbatim>\<open>strncpy(dst, src, n)\<close>: copies up to \<open>n\<close> bytes, and once it has met the terminator
  fills the rest of the \<open>n\<close> bytes with terminators.
\<close>

fun memset_nul :: "ptr \<Rightarrow> nat \<Rightarrow> memory \<Rightarrow> memory" where
  "memset_nul d 0 m = m"
| "memset_nul d (Suc n) m = memset_nul (ptr_add d 1) n (store m d NUL)"

fun strncpy :: "ptr \<Rightarrow> ptr \<Rightarrow> nat \<Rightarrow> memory \<Rightarrow> fault + memory" where
  "strncpy d s 0 m = Inr m"
| "strncpy d s (Suc n) m =
     (case load m s of
        Inl e \<Rightarrow> Inl e
      | Inr c \<Rightarrow>
          if c = NUL then Inr (memset_nul d (Suc n) m)
          else strncpy (ptr_add d 1) (ptr_add s 1) n (store m d c))"

section \<open>ident\_codon\<close>

text \<open>
  The \<^verbatim>\<open>switch\<close> of \<^verbatim>\<open>ident_codon\<close>: the number written over a base. The terminator
  is the one case that returns instead of writing; it is tested in \<open>ident_scan\<close>.
\<close>

definition base_value :: "char \<Rightarrow> nat" where
  "base_value c =
     (if c = CHR ''T'' \<or> c = CHR ''t'' \<or> c = CHR ''U'' \<or> c = CHR ''u'' then 1
      else if c = CHR ''C'' \<or> c = CHR ''c'' then 2
      else if c = CHR ''A'' \<or> c = CHR ''a'' then 3
      else if c = CHR ''G'' \<or> c = CHR ''g'' then 4
      else 0)"

text \<open>
  The loop \<^verbatim>\<open>for (x = 0; x < 3; x++)\<close>. The result \<open>(True, m)\<close> is the \<^verbatim>\<open>return 0\<close>
  of the case \<^verbatim>\<open>'\0'\<close>; \<open>(False, m)\<close> is the loop running to its end.
\<close>

function ident_scan :: "ptr \<Rightarrow> nat \<Rightarrow> memory \<Rightarrow> fault + (bool \<times> memory)" where
  "ident_scan p x m =
     (if x < 3 then
        (case load m (ptr_add p x) of
           Inl e \<Rightarrow> Inl e
         | Inr c \<Rightarrow>
             if c = NUL then Inr (True, m)
             else ident_scan p (x + 1) (store m (ptr_add p x) (char_of (base_value c))))
      else Inr (False, m))"
  by pat_completeness auto
termination
  by (relation "measure (\<lambda>(p, x, m). 3 - x)") auto

declare ident_scan.simps [simp del]

text \<open>The expression \<^verbatim>\<open>(codon[0] - 1) * 16 + codon[1] + (codon[2] - 1) * 4\<close>.\<close>

definition codon_number :: "nat \<Rightarrow> nat \<Rightarrow> nat \<Rightarrow> nat" where
  "codon_number b1 b2 b3 = (b1 - 1) * 16 + b2 + (b3 - 1) * 4"

definition ident_codon :: "ptr \<Rightarrow> memory \<Rightarrow> fault + (nat \<times> memory)" where
  "ident_codon p m =
     (case ident_scan p 0 m of
        Inl e \<Rightarrow> Inl e
      | Inr (True, m') \<Rightarrow> Inr (0, m')
      | Inr (False, m') \<Rightarrow>
          (case load m' p of
             Inl e \<Rightarrow> Inl e
           | Inr c0 \<Rightarrow>
          (case load m' (ptr_add p 1) of
             Inl e \<Rightarrow> Inl e
           | Inr c1 \<Rightarrow>
          (case load m' (ptr_add p 2) of
             Inl e \<Rightarrow> Inl e
           | Inr c2 \<Rightarrow>
               if of_char c0 * of_char c1 * of_char c2 \<noteq> (0::nat)
               then Inr (codon_number (of_char c0) (of_char c1) (of_char c2), m')
               else Inr (0, m')))))"

text \<open>
  The specification's wording of the codon index: a base that is not recognised makes
  the codon 0, otherwise the three base numbers are combined.
\<close>

definition spec_codon_id :: "char \<Rightarrow> char \<Rightarrow> char \<Rightarrow> nat" where
  "spec_codon_id a b c =
     (if base_value a = 0 \<or> base_value b = 0 \<or> base_value c = 0 then 0
      else codon_number (base_value a) (base_value b) (base_value c))"

text \<open>The inverse of \<open>codon_number\<close> on 1..64, used to show that it is a bijection.\<close>

definition codon_bases :: "nat \<Rightarrow> nat \<times> nat \<times> nat" where
  "codon_bases n = ((n - 1) div 16 + 1, (n - 1) mod 4 + 1, ((n - 1) mod 16) div 4 + 1)"

section \<open>The counters and codon\_usage\_tot\<close>

text \<open>
  The counters that \<^verbatim>\<open>codon_usage_tot\<close>, \<^verbatim>\<open>codon_error\<close> and \<^verbatim>\<open>cutab_out\<close> share:
  the arrays \<^verbatim>\<open>ncod\<close> (65 entries) and \<^verbatim>\<open>naa\<close> (23 entries), and the globals
  \<^verbatim>\<open>codon_tot\<close>, \<^verbatim>\<open>valid_stops\<close> and \<^verbatim>\<open>num_seq_int_stop\<close>. The counts are C
  \<^verbatim>\<open>long\<close>s; they are modelled as integers, since a count cannot reach \<open>2^63\<close> by
  increments of one.
\<close>

record count_state =
  ncod :: "int list"
  naa :: "int list"
  codon_tot :: int
  valid_stops :: int
  num_seq_int_stop :: int

text \<open>
  \<^verbatim>\<open>clean_up\<close> on these counters (it also clears the dinucleotide counters, which are
  not part of this state).
\<close>

definition clean_up :: "count_state \<Rightarrow> count_state" where
  "clean_up st = st\<lparr>ncod := replicate 65 0, naa := replicate 23 0,
                      valid_stops := 0, codon_tot := 0\<rparr>"

text \<open>
  The body of the counting loop after \<^verbatim>\<open>ident_codon\<close>:
  \<^verbatim>\<open>ncod[icode]++; naa[pm->pcu->ca[icode]]++; (*codon_tot)++;\<close>.
  The genetic code's table \<^verbatim>\<open>pm->pcu->ca\<close> is the parameter \<open>ca\<close>.
\<close>

definition count_codon :: "nat list \<Rightarrow> nat \<Rightarrow> count_state \<Rightarrow> count_state" where
  "count_codon ca icode st =
     st\<lparr>ncod := (ncod st)[icode := ncod st ! icode + 1],
        naa := (naa st)[ca ! icode := naa st ! (ca ! icode) + 1],
        codon_tot := codon_tot st + 1\<rparr>"

text \<open>
  The loop \<^verbatim>\<open>for (i = 0; i < seqlen - 2; i += 3)\<close>. Both \<^verbatim>\<open>i\<close> and \<^verbatim>\<open>seqlen\<close> are
  \<^verbatim>\<open>unsigned int\<close>: the subtraction and the addition wrap at \<open>2^32\<close>. The variable
  \<^verbatim>\<open>icode\<close> has no value before the first iteration.
\<close>

function count_loop ::
  "nat list \<Rightarrow> nat \<Rightarrow> nat \<Rightarrow> memory \<Rightarrow> count_state \<Rightarrow> nat option
     \<Rightarrow> fault + (memory \<times> count_state \<times> nat option)" where
  "count_loop ca seqlen i m st icode =
     (if i < (seqlen mod 2 ^ 32 + 2 ^ 32 - 2) mod 2 ^ 32 then
        (case strncpy (CodonPtr 0) (SeqPtr i) 3 m of
           Inl e \<Rightarrow> Inl e
         | Inr m1 \<Rightarrow>
             (case ident_codon (CodonPtr 0) m1 of
                Inl e \<Rightarrow> Inl e
              | Inr (ic, m2) \<Rightarrow>
                  count_loop ca seqlen ((i + 3) mod 2 ^ 32) m2 (count_codon ca ic st) (Some ic)))
      else Inr (m, st, icode))"
  by pat_completeness auto
termination
proof (relation "measures [\<lambda>(ca, seqlen, i, m, st, icode). i mod 3,
                           \<lambda>(ca, seqlen, i, m, st, icode). 2 ^ 32 - i]")
  show "wf (measures [\<lambda>(ca, seqlen, i, m, st, icode). i mod 3,
                      \<lambda>(ca :: nat list, seqlen :: nat, i :: nat, m :: memory,
                         st :: count_state, icode :: nat option). 2 ^ 32 - i])"
    by simp
next
  fix ca :: "nat list" and seqlen i :: nat and m m1 m2 :: memory and st :: count_state
    and icode :: "nat option" and x :: "nat \<times> memory" and ic :: nat
  assume "i < (seqlen mod 2 ^ 32 + 2 ^ 32 - 2) mod 2 ^ 32"
  then have lt: "i < 4294967295"
    using mod_less_divisor [of 4294967296 "seqlen mod 4294967296 + 4294967296 - 2"] by simp
  show "((ca, seqlen, (i + 3) mod 2 ^ 32, m2, count_codon ca ic st, Some ic),
          (ca, seqlen, i, m, st, icode))
        \<in> measures [\<lambda>(ca, seqlen, i, m, st, icode). i mod 3,
                     \<lambda>(ca, seqlen, i, m, st, icode). 2 ^ 32 - i]"
  proof (cases "i + 3 < 4294967296")
    case True
    then show ?thesis by simp
  next
    case False
    then have "i = 4294967293 \<or> i = 4294967294" using lt by arith
    then show ?thesis by auto
  qed
qed

declare count_loop.simps [simp del]

text \<open>
  \<^verbatim>\<open>codon_usage_tot(seq, &codon_tot, ncod, naa, pm)\<close>. \<open>s\<close> is the caller's buffer
  (its bytes before the final terminator); the function returns the last codon's
  number, the memory and the counters. \<^verbatim>\<open>seqlen = (int)strlen(seq)\<close>, stored in an
  \<^verbatim>\<open>unsigned int\<close>, is the length modulo \<open>2^32\<close>.
\<close>

definition codon_usage_tot ::
  "nat list \<Rightarrow> char list \<Rightarrow> count_state \<Rightarrow> fault + (nat \<times> memory \<times> count_state)" where
  "codon_usage_tot ca s st =
     (let seqlen = strlen s mod 2 ^ 32 in
      case count_loop ca seqlen 0 \<lparr>seq = s, codon = replicate 4 None\<rparr> st None of
        Inl e \<Rightarrow> Inl e
      | Inr (m1, st1, icode1) \<Rightarrow>
          (let (icode2, st2) =
                 (if seqlen mod 3 \<noteq> 0
                  then (Some 0, st1\<lparr>ncod := (ncod st1)[0 := ncod st1 ! 0 + 1]\<rparr>)
                  else (icode1, st1))
           in case icode2 of
                None \<Rightarrow> Inl UninitialisedRead
              | Some ic \<Rightarrow>
                  Inr (ic, m1,
                       if ca ! ic = 11 then st2\<lparr>valid_stops := valid_stops st2 + 1\<rparr>
                       else st2)))"

text \<open>
  Modelled from the spec: the translation table of the standard genetic code. The
  built-in tables are in \<^verbatim>\<open>codonW.h\<close>, which is not among the sources. Entry 0, the
  reserved codon number, is 0; entries 1..64 are amino-acid numbers 1..21 with 11 the
  stop, in the order of \<open>codon_number\<close> (TTT, TCT, TAT, TGT, TTC, ...).
\<close>

definition universal_ca :: "nat list" where
  "universal_ca =
     [0,
      1, 6, 10, 18,  1, 6, 10, 18,  2, 6, 11, 11,  2, 6, 11, 19,
      2, 7, 12, 20,  2, 7, 12, 20,  2, 7, 13, 20,  2, 7, 13, 20,
      3, 8, 14, 6,   3, 8, 14, 6,   3, 8, 15, 20,  4, 8, 15, 20,
      5, 9, 16, 21,  5, 9, 16, 21,  5, 9, 17, 21,  5, 9, 17, 21]"

text \<open>
  A translation table as the counters need it: 65 entries, entry 0 is 0 and every codon
  1..64 has an amino-acid number in 1..21.
\<close>

definition valid_code :: "nat list \<Rightarrow> bool" where
  "valid_code ca \<longleftrightarrow>
     length ca = 65 \<and> ca ! 0 = 0 \<and> list_all (\<lambda>a. 1 \<le> a \<and> a \<le> 21) (tl ca)"

text \<open>
  The numbers of the full triplets of a sequence, in the specification's wording, and
  the counters after counting a list of codon numbers.
\<close>

fun spec_codon_ids :: "char list \<Rightarrow> nat list" where
  "spec_codon_ids (a # b # c # rest) = spec_codon_id a b c # spec_codon_ids rest"
| "spec_codon_ids rest = []"

definition count_codons :: "nat list \<Rightarrow> count_state \<Rightarrow> nat list \<Rightarrow> count_state" where
  "count_codons ca st ids = foldl (\<lambda>st' k. count_codon ca k st') st ids"

text \<open>
  The figures the counting claims speak of: the sum of the entries \<open>lo..hi\<close> of an
  array, the number of full triplets whose three bases are all recognised, and the
  number of full triplets with a symbol that is not.
\<close>

definition sum_range :: "int list \<Rightarrow> nat \<Rightarrow> nat \<Rightarrow> int" where
  "sum_range xs lo hi = sum_list (take (hi + 1 - lo) (drop lo xs))"

definition translated :: "char list \<Rightarrow> nat" where
  "translated s = length (filter (\<lambda>k. k \<noteq> 0) (spec_codon_ids s))"

definition untranslated :: "char list \<Rightarrow> nat" where
  "untranslated s = length (filter (\<lambda>k. k = 0) (spec_codon_ids s))"

text \<open>The counters at the start of a run, as \<^verbatim>\<open>clean_up\<close> leaves them.\<close>

definition zero_counts :: count_state where
  "zero_counts =
     clean_up \<lparr>ncod = [], naa = [], codon_tot = 0, valid_stops = 0, num_seq_int_stop = 0\<rparr>"

section \<open>codon\_error\<close>

text \<open>
  The messages \<^verbatim>\<open>codon_error\<close> prints to \<^verbatim>\<open>pm->my_err\<close>, one constructor for each
  \<^verbatim>\<open>fprintf\<close> of a warning, with the numbers it prints. Of \<^verbatim>\<open>MENU_STRUCT\<close> the
  function reads the flags \<^verbatim>\<open>warn\<close> and \<^verbatim>\<open>totals\<close> and the translation table.
\<close>

datatype warning =
    NoStartCodon
  | InternalStopsTotals int
  | InternalStops int
  | LastCodonPartial
  | NonTranslatableTotals int
  | NonTranslatable int
  | NotTerminated
  | NcNotCalculated nat int

record menu =
  warn :: bool
  totals :: bool

text \<open>
  The loop \<^verbatim>\<open>for (i = 1, ns = 0; i < 65; i++)\<close>: the codons counted and, among them,
  the stop codons.
\<close>

definition count_stops :: "nat list \<Rightarrow> int list \<Rightarrow> int \<times> int" where
  "count_stops ca nc =
     foldl (\<lambda>(loc_cod_tot, ns) i.
              (loc_cod_tot + nc ! i, if ca ! i = 11 then ns + nc ! i else ns))
           (0, 0) [1..<65]"

text \<open>
  \<^verbatim>\<open>codon_error(x, y, ttitle, error_level, pm)\<close>, with the warnings it prints as a
  list. \<^verbatim>\<open>valid_start\<close> is the constant \<^verbatim>\<open>true\<close> of the source. The default case
  calls \<^verbatim>\<open>my_exit(99, ...)\<close>.
\<close>

definition codon_error ::
  "nat \<Rightarrow> int \<Rightarrow> nat \<Rightarrow> menu \<Rightarrow> nat list \<Rightarrow> count_state
     \<Rightarrow> fault + (int \<times> warning list \<times> count_state)" where
  "codon_error x y error_level pm ca st =
     (let (loc_cod_tot, ns) = count_stops ca (ncod st);
          valid_start = True
      in
      if error_level = 1 then
        (let ns1 = ns - valid_stops st;
             w1 = (if \<not> valid_start \<and> warn pm then [NoStartCodon] else [])
         in if ns1 \<noteq> 0 \<and> warn pm
            then Inr (loc_cod_tot,
                      w1 @ [if totals pm \<and> warn pm then InternalStopsTotals ns1
                            else InternalStops ns1],
                      st\<lparr>num_seq_int_stop := num_seq_int_stop st + 1\<rparr>)
            else Inr (loc_cod_tot, w1, st))
      else if error_level = 2 then
        (if ncod st ! 0 = 1 \<and> ca ! x \<noteq> 11 \<and> warn pm
         then Inr (loc_cod_tot, [LastCodonPartial], st)
         else Inr (loc_cod_tot,
                   (if ncod st ! 0 \<noteq> 0 \<and> warn pm
                    then [if totals pm then NonTranslatableTotals (ncod st ! 0)
                          else NonTranslatable (ncod st ! 0)]
                    else []) @
                   (if ca ! x \<noteq> 11 \<and> warn pm \<and> \<not> totals pm then [NotTerminated] else []),
                   st))
      else if error_level = 3 then
        Inr (loc_cod_tot,
             if warn pm then [NcNotCalculated (if x = 3 then 4 else x) y] else [],
             st)
      else if error_level = 4 then Inr (loc_cod_tot, [], st)
      else Inl (Exit 99 ProgrammeError))"

text \<open>The number of stop codons among the counted codons, in the specification's wording.\<close>

definition spec_stop_count :: "nat list \<Rightarrow> int list \<Rightarrow> int" where
  "spec_stop_count ca nc = (\<Sum>i = 1..64. if ca ! i = 11 then nc ! i else 0)"

section \<open>Degeneracy of the genetic code\<close>

text \<open>
  \<^verbatim>\<open>how_synon\<close>: for each codon the number of codons 1..64 with its amino acid (entry 0 is
  0). \<^verbatim>\<open>how_synon_aa\<close>: for each amino acid the number of its codons. \<^verbatim>\<open>initialize_point\<close>
  stores them as \<^verbatim>\<open>pm->ds\<close> and \<^verbatim>\<open>pm->da\<close> whenever it sets the genetic code.
\<close>

definition how_synon :: "nat list \<Rightarrow> nat list" where
  "how_synon ca =
     map (\<lambda>x. if x = 0 then 0 else length (filter (\<lambda>i. ca ! x = ca ! i) [1..<65])) [0..<65]"

definition how_synon_aa :: "nat list \<Rightarrow> nat list" where
  "how_synon_aa ca =
     foldl (\<lambda>dda x. dda[ca ! x := dda ! (ca ! x) + 1]) (replicate 22 0) [1..<65]"

section \<open>Loading the user's reference tables\<close>

text \<open>
  Modelled from the spec: the arrays \<^verbatim>\<open>fop_cod\<close> of \<^verbatim>\<open>FOP_STRUCT\<close> and \<^verbatim>\<open>cai_val\<close> of
  \<^verbatim>\<open>CAI_STRUCT\<close> are declared in \<^verbatim>\<open>codonW.h\<close>, which is not among the sources. The
  specification gives a reference table 64 entries indexed by the codon number; the
  code keeps an entry 0 before them, so the arrays have 65 entries.
\<close>

definition table_size :: nat where
  "table_size = 65"

text \<open>
  The first call of \<^verbatim>\<open>fop_out\<close> and of \<^verbatim>\<open>cbi_out\<close> reads the user's classification
  file, when there is one, byte by byte: \<^verbatim>\<open>isdigit(c) && atoi(str) >= 0 && atoi(str) <= 3\<close>
  decides whether a byte is stored, and the loop stops at the end of the file or once
  \<^verbatim>\<open>x\<close> has passed 66. The table is built in a list, entry 0 first, whose length is
  \<^verbatim>\<open>x\<close>. The loop does not keep \<^verbatim>\<open>x\<close> inside the array: a sixty-fifth digit is stored
  at \<^verbatim>\<open>fop_cod[65]\<close>, beyond its last entry, and there the model stops with
  \<open>WritePastEnd\<close>.
\<close>

definition isdigit :: "char \<Rightarrow> bool" where
  "isdigit c \<longleftrightarrow> 48 \<le> (of_char c :: nat) \<and> (of_char c :: nat) \<le> 57"

text \<open>\<^verbatim>\<open>atoi\<close> of the one-character string \<^verbatim>\<open>sprintf(str, "%c", c)\<close> builds.\<close>

definition atoi_char :: "char \<Rightarrow> nat" where
  "atoi_char c = (if isdigit c then of_char c - 48 else 0)"

fun read_digits :: "char list \<Rightarrow> nat list \<Rightarrow> fault + nat list" where
  "read_digits [] fop_cod = Inr fop_cod"
| "read_digits (c # cs) fop_cod =
     (if length fop_cod \<le> 66 then
        (if isdigit c \<and> 0 \<le> atoi_char c \<and> atoi_char c \<le> 3
         then (if length fop_cod < table_size then read_digits cs (fop_cod @ [atoi_char c])
               else Inl WritePastEnd)
         else read_digits cs fop_cod)
      else Inr fop_cod)"

definition load_fop_file :: "char list \<Rightarrow> fault + nat list" where
  "load_fop_file src =
     (case read_digits src [0] of
        Inl e \<Rightarrow> Inl e
      | Inr fop_cod \<Rightarrow>
          if length fop_cod \<noteq> 65 then Inl (Exit 99 (FopFileCount (length fop_cod - 1)))
          else Inr fop_cod)"

definition load_cbi_file :: "char list \<Rightarrow> fault + nat list" where
  "load_cbi_file src =
     (case read_digits src [0] of
        Inl e \<Rightarrow> Inl e
      | Inr fop_cod \<Rightarrow>
          if length fop_cod \<noteq> 65 then Inl (Exit 99 (CbiFileCount (length fop_cod - 1)))
          else Inr fop_cod)"

text \<open>
  A value of the C types \<^verbatim>\<open>float\<close> and \<^verbatim>\<open>double\<close>: a number, an infinity, or not a
  number. Of the finite values the model keeps the real number: comparisons are the
  machine's, and the rounding of arithmetic is modelled in \<^verbatim>\<open>cbi_out\<close> only, where it
  decides the test for a zero denominator.
\<close>

datatype cfloat = Finite real | PlusInf | MinusInf | NaN

fun c_less :: "cfloat \<Rightarrow> real \<Rightarrow> bool" where
  "c_less (Finite v) r \<longleftrightarrow> v < r"
| "c_less PlusInf r \<longleftrightarrow> False"
| "c_less MinusInf r \<longleftrightarrow> True"
| "c_less NaN r \<longleftrightarrow> False"

fun c_greater :: "cfloat \<Rightarrow> real \<Rightarrow> bool" where
  "c_greater (Finite v) r \<longleftrightarrow> v > r"
| "c_greater PlusInf r \<longleftrightarrow> True"
| "c_greater MinusInf r \<longleftrightarrow> False"
| "c_greater NaN r \<longleftrightarrow> False"

text \<open>
  The first call of \<^verbatim>\<open>cai_out\<close> reads the user's weights with
  \<^verbatim>\<open>fscanf(pm->caifile, "%f ", &ftemp)\<close> until it returns \<^verbatim>\<open>EOF\<close>. The file is modelled
  by what the successive calls find: a value they convert (\<^verbatim>\<open>%f\<close> also converts the
  spellings of the infinities and of not-a-number), or text that is no number. Such
  text is never consumed: \<^verbatim>\<open>fscanf\<close> returns 0 and leaves \<^verbatim>\<open>ftemp\<close> as it was, and the
  loop goes on storing it. \<^verbatim>\<open>ftemp\<close> is \<open>None\<close> until a value has been converted. The
  loop has no bound on \<^verbatim>\<open>x\<close>: a sixty-fifth value is stored beyond the last entry of
  \<^verbatim>\<open>cai_val\<close>, where the model stops with \<open>WritePastEnd\<close>.
\<close>

datatype scanned = Converted cfloat | NoConversion

function read_cai_values :: "scanned list \<Rightarrow> cfloat option \<Rightarrow> cfloat list \<Rightarrow> fault + cfloat list" where
  "read_cai_values [] ftemp cai_val = Inr cai_val"
| "read_cai_values (Converted v # rest) ftemp cai_val =
     (if c_less v 0 \<or> c_greater v 1 then Inl (Exit 99 CaiValueOutOfRange)
      else if length cai_val < table_size then read_cai_values rest (Some v) (cai_val @ [v])
      else Inl WritePastEnd)"
| "read_cai_values (NoConversion # rest) None cai_val = Inl UninitialisedRead"
| "read_cai_values (NoConversion # rest) (Some v) cai_val =
     (if c_less v 0 \<or> c_greater v 1 then Inl (Exit 99 CaiValueOutOfRange)
      else if length cai_val < table_size
      then read_cai_values (NoConversion # rest) (Some v) (cai_val @ [v])
      else Inl WritePastEnd)"
  by pat_completeness auto
termination
  by (relation "measures [\<lambda>(src, ftemp, cai_val). length src,
                          \<lambda>(src, ftemp, cai_val). table_size - length cai_val]") auto

definition load_cai_file :: "scanned list \<Rightarrow> fault + cfloat list" where
  "load_cai_file src =
     (case read_cai_values src None [Finite 0] of
        Inl e \<Rightarrow> Inl e
      | Inr cai_val \<Rightarrow>
          if length cai_val \<noteq> 65 then Inl (Exit 99 (CaiFileCount (length cai_val - 1)))
          else Inr cai_val)"

text \<open>The bytes of a classification file that are stored: the digits 0 to 3.\<close>

definition accepted_digit :: "char \<Rightarrow> bool" where
  "accepted_digit c \<longleftrightarrow> c \<in> set ''0123''"

text \<open>A file of weights in which every text is a finite number.\<close>

definition numbers :: "real list \<Rightarrow> scanned list" where
  "numbers vs = map (\<lambda>v. Converted (Finite v)) vs"

section \<open>Floating-point values\<close>

text \<open>
  Arithmetic on the values of the C floating types with the infinities and
  not-a-number as IEEE 754 has them. A zero is the positive zero: the zero divisors of
  the code are conversions of an integer 0. \<^verbatim>\<open>c_log\<close> is \<^verbatim>\<open>log\<close> and \<^verbatim>\<open>c_exp\<close> is
  \<^verbatim>\<open>exp\<close> of \<^verbatim>\<open>math.h\<close>.
\<close>

fun c_add :: "cfloat \<Rightarrow> cfloat \<Rightarrow> cfloat" where
  "c_add (Finite a) (Finite b) = Finite (a + b)"
| "c_add NaN y = NaN"
| "c_add x NaN = NaN"
| "c_add PlusInf MinusInf = NaN"
| "c_add MinusInf PlusInf = NaN"
| "c_add PlusInf y = PlusInf"
| "c_add MinusInf y = MinusInf"
| "c_add (Finite a) y = y"

fun c_neg :: "cfloat \<Rightarrow> cfloat" where
  "c_neg (Finite a) = Finite (- a)"
| "c_neg PlusInf = MinusInf"
| "c_neg MinusInf = PlusInf"
| "c_neg NaN = NaN"

fun c_mul :: "cfloat \<Rightarrow> cfloat \<Rightarrow> cfloat" where
  "c_mul (Finite a) (Finite b) = Finite (a * b)"
| "c_mul NaN y = NaN"
| "c_mul x NaN = NaN"
| "c_mul (Finite a) y = (if a = 0 then NaN else if 0 < a then y else c_neg y)"
| "c_mul x (Finite b) = (if b = 0 then NaN else if 0 < b then x else c_neg x)"
| "c_mul PlusInf y = y"
| "c_mul MinusInf y = c_neg y"

fun c_div :: "cfloat \<Rightarrow> cfloat \<Rightarrow> cfloat" where
  "c_div (Finite a) (Finite b) =
     (if b \<noteq> 0 then Finite (a / b)
      else if a = 0 then NaN else if 0 < a then PlusInf else MinusInf)"
| "c_div NaN y = NaN"
| "c_div x NaN = NaN"
| "c_div (Finite a) y = Finite 0"
| "c_div x (Finite b) = (if 0 \<le> b then x else c_neg x)"
| "c_div x y = NaN"

fun c_log :: "cfloat \<Rightarrow> cfloat" where
  "c_log (Finite a) = (if 0 < a then Finite (ln a) else if a = 0 then MinusInf else NaN)"
| "c_log PlusInf = PlusInf"
| "c_log MinusInf = NaN"
| "c_log NaN = NaN"

fun c_exp :: "cfloat \<Rightarrow> cfloat" where
  "c_exp (Finite a) = Finite (exp a)"
| "c_exp PlusInf = PlusInf"
| "c_exp MinusInf = Finite 0"
| "c_exp NaN = NaN"

text \<open>
  Single precision. \<open>float_round x\<close> is the number with 24 significant bits nearest to
  \<open>x\<close>, the one with the even significand when two are as near: what a conversion to
  \<^verbatim>\<open>float\<close> and an operation on \<^verbatim>\<open>float\<close> operands give (each operation is
  rounded to its type, \<^verbatim>\<open>FLT_EVAL_METHOD\<close> 0). The exponent is not bounded: the
  values of \<^verbatim>\<open>cbi_out\<close>, the one place where the model rounds, are quotients and
  differences of counts and stay far inside the range of \<^verbatim>\<open>float\<close>.
\<close>

definition round_even :: "real \<Rightarrow> int" where
  "round_even x =
     (let f = \<lfloor>x\<rfloor>; d = x - of_int f
      in if d < 1 / 2 then f else if 1 / 2 < d then f + 1 else if even f then f else f + 1)"

definition float_round :: "real \<Rightarrow> real" where
  "float_round x =
     (if x = 0 then 0
      else (let e = \<lfloor>log 2 \<bar>x\<bar>\<rfloor> - 23
            in of_int (round_even (x / 2 powi e)) * 2 powi e))"

section \<open>What the calculators print\<close>

text \<open>
  What a calculator prints with a \<^verbatim>\<open>%f\<close> or \<^verbatim>\<open>%li\<close> format is a \<open>Printed\<close> value (the
  rounding to the digits printed is not modelled); \<open>Stars\<close> is the \<^verbatim>\<open>*****\<close> that
  \<^verbatim>\<open>enc_out\<close> prints when Nc cannot be calculated. The header lines that \<^verbatim>\<open>gc_out\<close>
  and \<^verbatim>\<open>dinuc_out\<close> print on their first call, and the names of codons and amino
  acids, are text and not among the values.
\<close>

datatype printed = Printed cfloat | Stars

abbreviation Number :: "real \<Rightarrow> printed" where
  "Number v \<equiv> Printed (Finite v)"

section \<open>enc\_out\<close>

text \<open>The homozygosity \<^verbatim>\<open>bb\<close> of amino acid \<open>i\<close>.\<close>

definition enc_bb :: "nat list \<Rightarrow> int list \<Rightarrow> int list \<Rightarrow> nat \<Rightarrow> real" where
  "enc_bb ca nncod nnaa i =
     (if nnaa ! i \<le> 1 then 0
      else
        (let s2 = foldl (\<lambda>s2 x.
                     if ca ! x \<noteq> i then s2
                     else s2 + (if nncod ! x = 0 then 0
                                else (real_of_int (nncod ! x) / real_of_int (nnaa ! i)) ^ 2))
                   0 [1..<65]
         in (real_of_int (nnaa ! i) * s2 - 1) / (real_of_int (nnaa ! i) - 1)))"

text \<open>
  The arrays \<^verbatim>\<open>numaa\<close>, \<^verbatim>\<open>fold\<close> (here \<open>fold_arr\<close>) and \<^verbatim>\<open>totb\<close>, of nine entries
  each, and the loop over the amino acids that fills them.
\<close>

record enc_arrays =
  numaa :: "nat list"
  fold_arr :: "nat list"
  totb :: "real list"

definition enc_step :: "nat list \<Rightarrow> nat list \<Rightarrow> int list \<Rightarrow> int list \<Rightarrow> enc_arrays \<Rightarrow> nat
    \<Rightarrow> enc_arrays" where
  "enc_step ca da nncod nnaa r i =
     (if i = 11 then r
      else
        (let bb = enc_bb ca nncod nnaa i;
             r1 = (if bb > 1 / 10000000
                   then r\<lparr>totb := (totb r)[da ! i := totb r ! (da ! i) + bb],
                          numaa := (numaa r)[da ! i := numaa r ! (da ! i) + 1]\<rparr>
                   else r)
         in r1\<lparr>fold_arr := (fold_arr r1)[da ! i := fold_arr r1 ! (da ! i) + 1]\<rparr>))"

text \<open>
  The loop \<^verbatim>\<open>for (z = 2; z <= 8; z++)\<close> over the fold classes \<open>zs\<close> still to come.
  \<open>Inl (z, y)\<close> is the \<^verbatim>\<open>break\<close> with \<^verbatim>\<open>error_t\<close> set: the class without data and its
  \<^verbatim>\<open>numaa\<close>.
\<close>

fun enc_sum :: "enc_arrays \<Rightarrow> nat list \<Rightarrow> real \<Rightarrow> (nat \<times> nat) + real" where
  "enc_sum r [] enc_tot = Inr enc_tot"
| "enc_sum r (z # zs) enc_tot =
     (if fold_arr r ! z \<noteq> 0 then
        (if numaa r ! z \<noteq> 0 \<and> totb r ! z > 0
         then enc_sum r zs (enc_tot + real (fold_arr r ! z) / (totb r ! z / real (numaa r ! z)))
         else if z = 3 \<and> numaa r ! 2 \<noteq> 0 \<and> numaa r ! 4 \<noteq> 0 \<and> fold_arr r ! z = 1
         then enc_sum r zs
                (enc_tot + real (fold_arr r ! z) /
                   ((totb r ! 2 / real (numaa r ! 2) + totb r ! 4 / real (numaa r ! 4)) * (1 / 2)))
         else Inl (z, numaa r ! z))
      else enc_sum r zs enc_tot)"

definition enc_arrays_of :: "nat list \<Rightarrow> int list \<Rightarrow> int list \<Rightarrow> enc_arrays" where
  "enc_arrays_of ca nncod nnaa =
     foldl (enc_step ca (how_synon_aa ca) nncod nnaa)
       \<lparr>numaa = replicate 9 0, fold_arr = replicate 9 0, totb = replicate 9 0\<rparr> [1..<22]"

text \<open>
  \<^verbatim>\<open>enc_out\<close>: what it prints, and the warning of \<^verbatim>\<open>codon_error\<close> at level 3 when Nc
  is not calculated. (The arrays have nine entries; the families of the genetic codes
  have no more than eight codons.)
\<close>

definition enc_out ::
  "menu \<Rightarrow> nat list \<Rightarrow> int list \<Rightarrow> int list \<Rightarrow> count_state
     \<Rightarrow> fault + (printed \<times> warning list \<times> count_state)" where
  "enc_out pm ca nncod nnaa st =
     (let r = enc_arrays_of ca nncod nnaa in
      case enc_sum r [2..<9] (real (fold_arr r ! 1)) of
        Inl (z, y) \<Rightarrow>
          (case codon_error z (int y) 3 pm ca st of
             Inl e \<Rightarrow> Inl e
           | Inr (loc_cod_tot, ws, st1) \<Rightarrow> Inr (Stars, ws, st1))
      | Inr enc_tot \<Rightarrow> Inr (if enc_tot \<le> 61 then Number enc_tot else Number 61, [], st))"

section \<open>hydro\_out and aromo\_out\<close>

text \<open>
  The usage-weighted mean of a property of the amino acids; \<open>prop\<close> is \<^verbatim>\<open>pap->hydro\<close> or
  \<^verbatim>\<open>pap->aromo\<close>, tables of \<^verbatim>\<open>codonW.h\<close>. Without an amino acid nothing is printed.
\<close>

definition aa_total :: "int list \<Rightarrow> int" where
  "aa_total nnaa = foldl (\<lambda>tot i. if i \<noteq> 11 then tot + nnaa ! i else tot) 0 [1..<22]"

definition property_out :: "real list \<Rightarrow> int list \<Rightarrow> printed list" where
  "property_out prop nnaa =
     (let tot = aa_total nnaa in
      if tot = 0 then []
      else [Number (foldl (\<lambda>v i. if i \<noteq> 11
                                   then v + real_of_int (nnaa ! i) / real_of_int tot * prop ! i
                                   else v) 0 [1..<22])])"

definition hydro_out :: "real list \<Rightarrow> int list \<Rightarrow> printed list" where
  "hydro_out hydro nnaa = property_out hydro nnaa"

definition aromo_out :: "real list \<Rightarrow> int list \<Rightarrow> printed list" where
  "aromo_out aromo nnaa = property_out aromo nnaa"

section \<open>gc\_out\<close>

text \<open>The tallies of \<^verbatim>\<open>gc_out\<close>, arrays of five entries indexed by the base number.\<close>

record gc_tallies =
  bases :: "int list"
  base_tot :: "int list"
  base_1 :: "int list"
  base_2 :: "int list"
  base_3 :: "int list"
  tot_s :: int
  totalaa :: int

text \<open>The codons in the order of the three nested loops over \<open>x\<close>, \<open>y\<close> and \<open>z\<close>.\<close>

definition all_xyz :: "(nat \<times> nat \<times> nat) list" where
  "all_xyz = concat (map (\<lambda>x. concat (map (\<lambda>y. map (\<lambda>z. (x, y, z)) [1..<5]) [1..<5])) [1..<5])"

definition gc_step :: "nat list \<Rightarrow> nat list \<Rightarrow> int list \<Rightarrow> gc_tallies \<Rightarrow> nat \<times> nat \<times> nat
    \<Rightarrow> gc_tallies" where
  "gc_step ca ds nc t xyz =
     (case xyz of (x, y, z) \<Rightarrow>
        (let id = codon_number x y z in
         if ca ! id = 11 then t
         else
           (let n = nc ! id;
                t1 = t\<lparr>base_tot := (base_tot t)[x := base_tot t ! x + n],
                       base_1 := (base_1 t)[x := base_1 t ! x + n]\<rparr>;
                t2 = t1\<lparr>base_tot := (base_tot t1)[y := base_tot t1 ! y + n],
                        base_2 := (base_2 t1)[y := base_2 t1 ! y + n]\<rparr>;
                t3 = t2\<lparr>base_tot := (base_tot t2)[z := base_tot t2 ! z + n],
                        base_3 := (base_3 t2)[z := base_3 t2 ! z + n],
                        totalaa := totalaa t2 + n\<rparr>
            in if ds ! id = 1 then t3
               else t3\<lparr>bases := (bases t3)[z := bases t3 ! z + n], tot_s := tot_s t3 + n\<rparr>)))"

definition gc_tally :: "nat list \<Rightarrow> int list \<Rightarrow> gc_tallies" where
  "gc_tally ca nc =
     foldl (gc_step ca (how_synon ca) nc)
       \<lparr>bases = replicate 5 0, base_tot = replicate 5 0, base_1 = replicate 5 0,
        base_2 = replicate 5 0, base_3 = replicate 5 0, tot_s = 0, totalaa = 0\<rparr> all_xyz"

text \<open>
  \<^verbatim>\<open>gc_out\<close> reads the global \<^verbatim>\<open>ncod\<close>. With no synonymous or no translatable codon it
  prints nothing (and returns 1); otherwise the numbers of the mode \<^verbatim>\<open>which\<close>. The
  quotients are divisions of \<^verbatim>\<open>double\<close>: the divisor \<^verbatim>\<open>totalaa * 3 - tot_s\<close> is not
  tested.
\<close>

definition gc_out :: "nat \<Rightarrow> nat list \<Rightarrow> int list \<Rightarrow> printed list" where
  "gc_out which ca nc =
     (let t = gc_tally ca nc;
          ratio = (\<lambda>a b. Printed (c_div (Finite (real_of_int a)) (Finite (real_of_int b))))
      in if tot_s t = 0 \<or> totalaa t = 0 then []
         else if which = 1 then
           [Number (real_of_int (totalaa t)), Number (real_of_int (tot_s t)),
            ratio (base_tot t ! 2 + base_tot t ! 4) (totalaa t * 3),
            ratio (bases t ! 2 + bases t ! 4) (tot_s t),
            ratio (base_tot t ! 2 + base_tot t ! 4 - bases t ! 2 - bases t ! 4)
                  (totalaa t * 3 - tot_s t),
            ratio (base_1 t ! 2 + base_1 t ! 4) (totalaa t),
            ratio (base_2 t ! 2 + base_2 t ! 4) (totalaa t),
            ratio (base_3 t ! 2 + base_3 t ! 4) (totalaa t),
            ratio (base_1 t ! 1) (totalaa t), ratio (base_2 t ! 1) (totalaa t),
            ratio (base_3 t ! 1) (totalaa t),
            ratio (base_1 t ! 2) (totalaa t), ratio (base_2 t ! 2) (totalaa t),
            ratio (base_3 t ! 2) (totalaa t),
            ratio (base_1 t ! 3) (totalaa t), ratio (base_2 t ! 3) (totalaa t),
            ratio (base_3 t ! 3) (totalaa t),
            ratio (base_1 t ! 4) (totalaa t), ratio (base_2 t ! 4) (totalaa t),
            ratio (base_3 t ! 4) (totalaa t)]
         else if which = 2 then [ratio (base_tot t ! 2 + base_tot t ! 4) (totalaa t * 3)]
         else if which = 3 then [ratio (bases t ! 2 + bases t ! 4) (tot_s t)]
         else if which = 4 then [Number (real_of_int (tot_s t))]
         else if which = 5 then [Number (real_of_int (totalaa t))]
         else [])"

section \<open>base\_sil\_us\_out\<close>

text \<open>
  \<^verbatim>\<open>bases_s\<close>: the synonymous codons used that end in each base. \<^verbatim>\<open>cb\<close>: for each
  base, the amino acids counted that have a codon ending in it, each family once
  (the flags \<^verbatim>\<open>done\<close>). Both arrays are indexed by \<open>z - 1\<close>.
\<close>

definition sil_bases_s :: "nat list \<Rightarrow> nat list \<Rightarrow> int list \<Rightarrow> int list" where
  "sil_bases_s ca ds nncod =
     foldl (\<lambda>bases_s xyz.
              case xyz of (x, y, z) \<Rightarrow>
                (let id = codon_number x y z in
                 if ds ! id = 1 \<or> ca ! id = 11 then bases_s
                 else bases_s[z - 1 := bases_s ! (z - 1) + nncod ! id]))
           (replicate 4 0) all_xyz"

definition sil_cb_aa :: "nat list \<Rightarrow> int list \<Rightarrow> nat \<Rightarrow> int list \<Rightarrow> int list" where
  "sil_cb_aa ca nnaa i cb =
     fst (foldl (\<lambda>(cb, done) xyz.
                   case xyz of (x, y, z) \<Rightarrow>
                     (let id = codon_number x y z in
                      if ca ! id = i \<and> done ! (z - 1) = False
                      then (cb[z - 1 := cb ! (z - 1) + nnaa ! i], done[z - 1 := True])
                      else (cb, done)))
                (cb, replicate 4 False) all_xyz)"

definition sil_cb :: "nat list \<Rightarrow> nat list \<Rightarrow> int list \<Rightarrow> int list" where
  "sil_cb ca da nnaa =
     foldl (\<lambda>cb i. if i = 11 \<or> da ! i = 1 then cb else sil_cb_aa ca nnaa i cb)
           (replicate 4 0) [1..<22]"

definition base_sil_us_out :: "nat list \<Rightarrow> int list \<Rightarrow> int list \<Rightarrow> printed list" where
  "base_sil_us_out ca nncod nnaa =
     (let bases_s = sil_bases_s ca (how_synon ca) nncod;
          cb = sil_cb ca (how_synon_aa ca) nnaa
      in map (\<lambda>i. if cb ! i > 0 then Number (real_of_int (bases_s ! i) / real_of_int (cb ! i))
                   else Number 0) [0..<4])"

section \<open>dinuc\_out\<close>

text \<open>
  \<^verbatim>\<open>dinuc_out\<close> prints, from the counts \<^verbatim>\<open>din[3][16]\<close> that \<^verbatim>\<open>dinuc_count\<close> keeps, the
  sixteen frequencies of each reading frame and then of the three frames together.
\<close>

definition dinuc_out :: "int list list \<Rightarrow> printed list" where
  "dinuc_out din =
     (let dinuc_tot = map (\<lambda>x. sum_list (map (\<lambda>i. din ! x ! i) [0..<16])) [0..<3];
          all_tot = sum_list dinuc_tot
      in concat (map (\<lambda>x. map (\<lambda>i. if dinuc_tot ! x \<noteq> 0
                                     then Number (real_of_int (din ! x ! i) / real_of_int (dinuc_tot ! x))
                                     else Number 0) [0..<16]) [0..<3]) @
         map (\<lambda>i. if all_tot \<noteq> 0
                   then Number (real_of_int (din ! 0 ! i + din ! 1 ! i + din ! 2 ! i) / real_of_int all_tot)
                   else Number 0) [0..<16])"

section \<open>cutab\_out\<close>

text \<open>The conversion \<^verbatim>\<open>(int)\<close> of a \<^verbatim>\<open>long\<close>: the low 32 bits, read as a signed number.\<close>

definition int_of_long :: "int \<Rightarrow> int" where
  "int_of_long n = (n + 2 ^ 31) mod 2 ^ 32 - 2 ^ 31"

text \<open>
  \<^verbatim>\<open>cutab_out\<close> assigns the global \<^verbatim>\<open>codon_tot\<close> from \<^verbatim>\<open>codon_error\<close> at level 4, then
  prints for each codon its count and RSCU value, and last the codon total. The RSCU
  value is guarded by the codon's count only: the division by the count of the amino
  acid is a division of \<^verbatim>\<open>float\<close>, which gives an infinity when that count is 0.
  (The names of the amino acids and codons that go with the numbers are tables of
  \<^verbatim>\<open>codonW.h\<close>.)
\<close>

definition cutab_out ::
  "menu \<Rightarrow> nat list \<Rightarrow> int list \<Rightarrow> int list \<Rightarrow> count_state \<Rightarrow> fault + (printed list \<times> count_state)" where
  "cutab_out pm ca nncod nnaa st =
     (case codon_error 1 1 4 pm ca st of
        Inl e \<Rightarrow> Inl e
      | Inr (loc_cod_tot, ws, st1) \<Rightarrow>
          (let st2 = st1\<lparr>codon_tot := loc_cod_tot\<rparr>;
               ds = how_synon ca
           in Inr (concat (map (\<lambda>x. [Number (real_of_int (int_of_long (nncod ! x))),
                                      Printed (if nncod ! x \<noteq> 0
                                               then c_mul (c_div (Finite (real_of_int (nncod ! x)))
                                                                 (Finite (real_of_int (nnaa ! (ca ! x)))))
                                                          (Finite (real (ds ! x)))
                                               else Finite 0)]) [1..<65]) @
                   [Number (real_of_int (codon_tot st2))], st2)))"

section \<open>The data the calculators share\<close>

text \<open>
  The files of \<^verbatim>\<open>MENU_STRUCT\<close> with the user's own tables, \<open>None\<close> for a null pointer:
  \<^verbatim>\<open>pm->caifile\<close>, \<^verbatim>\<open>pm->fopfile\<close> and \<^verbatim>\<open>pm->cbifile\<close>.
\<close>

record user_files =
  caifile :: "scanned list option"
  fopfile :: "char list option"
  cbifile :: "char list option"

text \<open>
  The data the calculators share: the counters, the dinucleotide counts \<^verbatim>\<open>din\<close>, and the
  reference tables that the pointers of \<^verbatim>\<open>MENU_STRUCT\<close> lead to: the translation table
  \<^verbatim>\<open>pcu->ca\<close>, the CAI weights \<^verbatim>\<open>pcai->cai_val\<close>, the classifications
  \<^verbatim>\<open>pfop->fop_cod\<close> and \<^verbatim>\<open>pcbi->fop_cod\<close> (\<^verbatim>\<open>initialize_point\<close> points both at one table; no
  calculator writes to it), and the amino-acid properties \<^verbatim>\<open>pap->hydro\<close> and
  \<^verbatim>\<open>pap->aromo\<close>. With them the \<^verbatim>\<open>static\<close> variables that \<^verbatim>\<open>cai_out\<close>, \<^verbatim>\<open>fop_out\<close> and
  \<^verbatim>\<open>cbi_out\<close> keep from one call to the next: the flags of the first call, the tables
  \<^verbatim>\<open>user_cai\<close>, \<^verbatim>\<open>user_fop\<close> and \<^verbatim>\<open>user_cbi\<close> that the user's files are read into, and the
  two arrays \<^verbatim>\<open>has_opt_info\<close>.
\<close>

record shared =
  counts :: count_state
  din :: "int list list"
  pcu_ca :: "nat list"
  pcai_cai_val :: "cfloat list"
  pfop_fop_cod :: "nat list"
  pcbi_fop_cod :: "nat list"
  pap_hydro :: "real list"
  pap_aromo :: "real list"
  cai_ttt :: bool
  user_cai :: "cfloat list"
  first_call_fop :: bool
  has_opt_info_fop :: "nat list"
  user_fop :: "nat list"
  first_call_cbi :: bool
  has_opt_info_cbi :: "nat list"
  user_cbi :: "nat list"

text \<open>
  The pointers \<^verbatim>\<open>pcai\<close>, \<^verbatim>\<open>pfop\<close> and \<^verbatim>\<open>pcbi\<close> are local to their functions: each call
  sets them from \<^verbatim>\<open>pm\<close>, and only the call that reads the user's file points them at
  the user's table.
\<close>

datatype table_pointer = BuiltIn | User

section \<open>cai\_out\<close>

text \<open>
  The constant \<^verbatim>\<open>0.01F\<close>, the single-precision number next to 0.01, and the loop of
  \<^verbatim>\<open>cai_out\<close>: a weight below 0.0001 is overwritten in the table \<^verbatim>\<open>pcai\<close> points to
  (\<^verbatim>\<open>pcai->cai_val[x] = 0.01F\<close>) before its logarithm is taken.
\<close>

definition float_0_01 :: real where
  "float_0_01 = 5368709 / 536870912"

definition cai_step ::
  "nat list \<Rightarrow> nat list \<Rightarrow> int list \<Rightarrow> cfloat list \<times> cfloat \<times> int \<Rightarrow> nat
     \<Rightarrow> cfloat list \<times> cfloat \<times> int" where
  "cai_step ca ds nncod state x =
     (case state of (cai_val, sigma, totaa) \<Rightarrow>
        if ca ! x = 11 \<or> ds ! x = 1 then (cai_val, sigma, totaa)
        else
          (let cai_val' = (if c_less (cai_val ! x) (1 / 10000)
                           then cai_val[x := Finite float_0_01] else cai_val)
           in (cai_val',
               c_add sigma (c_mul (Finite (real_of_int (nncod ! x))) (c_log (cai_val' ! x))),
               totaa + nncod ! x)))"

text \<open>
  The loop and what follows it, on the table \<^verbatim>\<open>pcai\<close> points to: the value printed and
  the table as the loop leaves it.
\<close>

definition cai_loop :: "nat list \<Rightarrow> cfloat list \<Rightarrow> int list \<Rightarrow> printed \<times> cfloat list" where
  "cai_loop ca cai_val nncod =
     (case foldl (cai_step ca (how_synon ca) nncod) (cai_val, Finite 0, 0) [1..<65] of
        (cai_val', sigma, totaa) \<Rightarrow>
          (Printed (if totaa \<noteq> 0 then c_exp (c_div sigma (Finite (real_of_int totaa)))
                    else Finite 0),
           cai_val'))"

text \<open>
  \<^verbatim>\<open>cai_out\<close>. The first call (\<^verbatim>\<open>cai_ttt\<close> still false) reads the user's file, when
  there is one, into \<^verbatim>\<open>user_cai\<close> and points \<^verbatim>\<open>pcai\<close> at it; every other call works
  on the table of \<^verbatim>\<open>pm->pcai\<close>.
\<close>

definition cai_out :: "user_files \<Rightarrow> int list \<Rightarrow> shared \<Rightarrow> fault + (printed \<times> shared)" where
  "cai_out fs nncod s =
     (case (if \<not> cai_ttt s then
              (case caifile fs of
                 None \<Rightarrow> Inr (BuiltIn, s\<lparr>cai_ttt := True\<rparr>)
               | Some src \<Rightarrow>
                   (case load_cai_file src of
                      Inl e \<Rightarrow> Inl e
                    | Inr cai_val \<Rightarrow> Inr (User, s\<lparr>user_cai := cai_val, cai_ttt := True\<rparr>)))
            else Inr (BuiltIn, s)) of
        Inl e \<Rightarrow> Inl e
      | Inr (pcai, s1) \<Rightarrow>
          (case pcai of
             BuiltIn \<Rightarrow>
               (case cai_loop (pcu_ca s1) (pcai_cai_val s1) nncod of
                  (v, cai_val) \<Rightarrow> Inr (v, s1\<lparr>pcai_cai_val := cai_val\<rparr>))
           | User \<Rightarrow>
               (case cai_loop (pcu_ca s1) (user_cai s1) nncod of
                  (v, cai_val) \<Rightarrow> Inr (v, s1\<lparr>user_cai := cai_val\<rparr>))))"

section \<open>cbi\_out\<close>

text \<open>
  The first call of \<^verbatim>\<open>cbi_out\<close> fills \<^verbatim>\<open>has_opt_info\<close>: for each amino acid the number
  of its codons classified 3 (optimal), stops and codons without a synonym left out.
\<close>

definition cbi_has_opt_info :: "nat list \<Rightarrow> nat list \<Rightarrow> nat list \<Rightarrow> nat list" where
  "cbi_has_opt_info ca ds fop_cod =
     foldl (\<lambda>has_opt_info x.
              if ca ! x = 11 \<or> ds ! x = 1 then has_opt_info
              else if fop_cod ! x = 3
                   then has_opt_info[ca ! x := has_opt_info ! (ca ! x) + 1]
                   else has_opt_info)
           (replicate 22 0) [1..<65]"

text \<open>
  The loop \<^verbatim>\<open>for (x = 1; x < 65; x++)\<close> of \<^verbatim>\<open>cbi_out\<close> over the codons \<open>xs\<close> still to
  come, with \<^verbatim>\<open>opt\<close>, \<^verbatim>\<open>tot_cod\<close> and \<^verbatim>\<open>exp_cod\<close>. \<^verbatim>\<open>exp_cod\<close> is a \<^verbatim>\<open>float\<close>: the two
  counts are converted, divided, and the quotient added, each time rounded. (The
  divisor \<^verbatim>\<open>da[pcu->ca[x]]\<close> counts the codons of the amino acid of \<open>x\<close>, \<open>x\<close> among
  them.) The default case of the \<^verbatim>\<open>switch\<close> ends the run.
\<close>

fun cbi_loop ::
  "nat list \<Rightarrow> nat list \<Rightarrow> nat list \<Rightarrow> nat list \<Rightarrow> int list \<Rightarrow> int list
     \<Rightarrow> nat list \<Rightarrow> int \<times> int \<times> real \<Rightarrow> fault + (int \<times> int \<times> real)" where
  "cbi_loop ca da fop_cod has_opt_info nncod nnaa [] acc = Inr acc"
| "cbi_loop ca da fop_cod has_opt_info nncod nnaa (x # xs) (opt, tot_cod, exp_cod) =
     (if has_opt_info ! (ca ! x) = 0
      then cbi_loop ca da fop_cod has_opt_info nncod nnaa xs (opt, tot_cod, exp_cod)
      else if fop_cod ! x = 3
      then cbi_loop ca da fop_cod has_opt_info nncod nnaa xs
             (opt + nncod ! x, tot_cod + nncod ! x,
              float_round (exp_cod +
                float_round (float_round (real_of_int (nnaa ! (ca ! x))) /
                             float_round (real (da ! (ca ! x))))))
      else if fop_cod ! x = 2 \<or> fop_cod ! x = 1
      then cbi_loop ca da fop_cod has_opt_info nncod nnaa xs (opt, tot_cod + nncod ! x, exp_cod)
      else Inl (Exit 99 (IllegalCbiValue (fop_cod ! x) x)))"

text \<open>
  The loop and the value \<^verbatim>\<open>fcbi\<close> that follows it, on the classification \<^verbatim>\<open>pcbi\<close>
  points to. In \<^verbatim>\<open>tot_cod - exp_cod\<close> and \<^verbatim>\<open>opt - exp_cod\<close> the count is converted to
  \<^verbatim>\<open>float\<close> and the difference rounded, and so is the quotient.
\<close>

definition cbi_value ::
  "nat list \<Rightarrow> nat list \<Rightarrow> nat list \<Rightarrow> int list \<Rightarrow> int list \<Rightarrow> fault + real" where
  "cbi_value ca fop_cod has_opt_info nncod nnaa =
     (case cbi_loop ca (how_synon_aa ca) fop_cod has_opt_info nncod nnaa [1..<65] (0, 0, 0) of
        Inl e \<Rightarrow> Inl e
      | Inr (opt, tot_cod, exp_cod) \<Rightarrow>
          Inr (if float_round (float_round (real_of_int tot_cod) - exp_cod) \<noteq> 0
               then float_round
                      (float_round (float_round (real_of_int opt) - exp_cod) /
                       float_round (float_round (real_of_int tot_cod) - exp_cod))
               else 0))"

text \<open>
  \<^verbatim>\<open>cbi_out\<close>. The first call reads the user's file, when there is one, into
  \<^verbatim>\<open>user_cbi\<close>, points \<^verbatim>\<open>pcbi\<close> at it, and fills \<^verbatim>\<open>has_opt_info\<close> from the table \<^verbatim>\<open>pcbi\<close>
  points to; every other call keeps \<^verbatim>\<open>has_opt_info\<close> and works on the table of
  \<^verbatim>\<open>pm->pcbi\<close>.
\<close>

definition cbi_out ::
  "user_files \<Rightarrow> int list \<Rightarrow> int list \<Rightarrow> shared \<Rightarrow> fault + (printed \<times> shared)" where
  "cbi_out fs nncod nnaa s =
     (case (if first_call_cbi s then
              (case (case cbifile fs of
                       None \<Rightarrow> Inr (BuiltIn, s)
                     | Some src \<Rightarrow>
                         (case load_cbi_file src of
                            Inl e \<Rightarrow> Inl e
                          | Inr fop_cod \<Rightarrow> Inr (User, s\<lparr>user_cbi := fop_cod\<rparr>))) of
                 Inl e \<Rightarrow> Inl e
               | Inr (pcbi, s1) \<Rightarrow>
                   Inr (pcbi,
                        s1\<lparr>has_opt_info_cbi :=
                              cbi_has_opt_info (pcu_ca s1) (how_synon (pcu_ca s1))
                                (case pcbi of BuiltIn \<Rightarrow> pcbi_fop_cod s1 | User \<Rightarrow> user_cbi s1),
                            first_call_cbi := False\<rparr>))
            else Inr (BuiltIn, s)) of
        Inl e \<Rightarrow> Inl e
      | Inr (pcbi, s1) \<Rightarrow>
          (case cbi_value (pcu_ca s1)
                  (case pcbi of BuiltIn \<Rightarrow> pcbi_fop_cod s1 | User \<Rightarrow> user_cbi s1)
                  (has_opt_info_cbi s1) nncod nnaa of
             Inl e \<Rightarrow> Inl e
           | Inr fcbi \<Rightarrow> Inr (Number fcbi, s1)))"

section \<open>fop\_out\<close>

text \<open>
  \<^verbatim>\<open>factor_in_rare\<close> is never set in the source: the prompt that set it is a comment.
\<close>

definition factor_in_rare :: bool where
  "factor_in_rare = False"

definition fop_has_opt_info :: "nat list \<Rightarrow> nat list \<Rightarrow> nat list \<Rightarrow> nat list" where
  "fop_has_opt_info ca ds fop_cod =
     foldl (\<lambda>has_opt_info x.
              if ca ! x = 11 \<or> ds ! x = 1 then has_opt_info
              else
                (let h1 = (if fop_cod ! x = 3
                           then has_opt_info[ca ! x := has_opt_info ! (ca ! x) + 1]
                           else has_opt_info)
                 in if fop_cod ! x = 1 \<and> factor_in_rare
                    then h1[ca ! x := h1 ! (ca ! x) + 1] else h1))
           (replicate 22 0) [1..<65]"

fun fop_loop ::
  "nat list \<Rightarrow> nat list \<Rightarrow> nat list \<Rightarrow> int list \<Rightarrow> nat list \<Rightarrow> int \<times> int \<times> int
     \<Rightarrow> fault + (int \<times> int \<times> int)" where
  "fop_loop ca fop_cod has_opt_info nncod [] acc = Inr acc"
| "fop_loop ca fop_cod has_opt_info nncod (x # xs) (opt, std, nonopt) =
     (if has_opt_info ! (ca ! x) = 0
      then fop_loop ca fop_cod has_opt_info nncod xs (opt, std, nonopt)
      else if fop_cod ! x = 3
      then fop_loop ca fop_cod has_opt_info nncod xs (opt + nncod ! x, std, nonopt)
      else if fop_cod ! x = 2
      then fop_loop ca fop_cod has_opt_info nncod xs (opt, std + nncod ! x, nonopt)
      else if fop_cod ! x = 1
      then fop_loop ca fop_cod has_opt_info nncod xs (opt, std, nonopt + nncod ! x)
      else Inl (Exit 99 (IllegalFopValue (fop_cod ! x) x)))"

text \<open>
  The loop of \<^verbatim>\<open>fop_out\<close> and the value \<^verbatim>\<open>ffop\<close> that follows it, on the
  classification \<^verbatim>\<open>pfop\<close> points to.
\<close>

definition fop_value :: "nat list \<Rightarrow> nat list \<Rightarrow> nat list \<Rightarrow> int list \<Rightarrow> fault + real" where
  "fop_value ca fop_cod has_opt_info nncod =
     (case fop_loop ca fop_cod has_opt_info nncod [1..<65] (0, 0, 0) of
        Inl e \<Rightarrow> Inl e
      | Inr (opt, std, nonopt) \<Rightarrow>
          Inr (if factor_in_rare \<and> opt + nonopt + std \<noteq> 0
               then real_of_int (opt - nonopt) / real_of_int (opt + nonopt + std)
               else if opt + nonopt + std \<noteq> 0
               then real_of_int opt / real_of_int (opt + nonopt + std)
               else 0))"

text \<open>
  \<^verbatim>\<open>fop_out\<close>. The first call reads the user's file, when there is one, into
  \<^verbatim>\<open>user_fop\<close>, points \<^verbatim>\<open>pfop\<close> at it, and fills \<^verbatim>\<open>has_opt_info\<close> from the table \<^verbatim>\<open>pfop\<close>
  points to; every other call keeps \<^verbatim>\<open>has_opt_info\<close> and works on the table of
  \<^verbatim>\<open>pm->pfop\<close>.
\<close>

definition fop_out :: "user_files \<Rightarrow> int list \<Rightarrow> shared \<Rightarrow> fault + (printed \<times> shared)" where
  "fop_out fs nncod s =
     (case (if first_call_fop s then
              (case (case fopfile fs of
                       None \<Rightarrow> Inr (BuiltIn, s)
                     | Some src \<Rightarrow>
                         (case load_fop_file src of
                            Inl e \<Rightarrow> Inl e
                          | Inr fop_cod \<Rightarrow> Inr (User, s\<lparr>user_fop := fop_cod\<rparr>))) of
                 Inl e \<Rightarrow> Inl e
               | Inr (pfop, s1) \<Rightarrow>
                   Inr (pfop,
                        s1\<lparr>has_opt_info_fop :=
                              fop_has_opt_info (pcu_ca s1) (how_synon (pcu_ca s1))
                                (case pfop of BuiltIn \<Rightarrow> pfop_fop_cod s1 | User \<Rightarrow> user_fop s1),
                            first_call_fop := False\<rparr>))
            else Inr (BuiltIn, s)) of
        Inl e \<Rightarrow> Inl e
      | Inr (pfop, s1) \<Rightarrow>
          (case fop_value (pcu_ca s1)
                  (case pfop of BuiltIn \<Rightarrow> pfop_fop_cod s1 | User \<Rightarrow> user_fop s1)
                  (has_opt_info_fop s1) nncod of
             Inl e \<Rightarrow> Inl e
           | Inr ffop \<Rightarrow> Inr (Number ffop, s1)))"

section \<open>The calculators on the shared data\<close>

datatype calculator =
  CAI | CBI | Fop | Enc | GC nat | SilentBase | Dinuc | Hydropathicity | Aromaticity | CuTab

text \<open>
  One call of a calculator: it is handed the arrays \<^verbatim>\<open>ncod\<close> and \<^verbatim>\<open>naa\<close> and reads the
  tables through \<^verbatim>\<open>pm\<close>; what comes back is what it printed and the shared data as it
  leaves them.
\<close>

definition run ::
  "menu \<Rightarrow> user_files \<Rightarrow> calculator \<Rightarrow> shared \<Rightarrow> fault + (printed list \<times> shared)" where
  "run pm fs c s =
     (let ca = pcu_ca s; nncod = ncod (counts s); nnaa = naa (counts s) in
      case c of
        CAI \<Rightarrow> (case cai_out fs nncod s of Inl e \<Rightarrow> Inl e | Inr (v, s1) \<Rightarrow> Inr ([v], s1))
      | CBI \<Rightarrow> (case cbi_out fs nncod nnaa s of Inl e \<Rightarrow> Inl e | Inr (v, s1) \<Rightarrow> Inr ([v], s1))
      | Fop \<Rightarrow> (case fop_out fs nncod s of Inl e \<Rightarrow> Inl e | Inr (v, s1) \<Rightarrow> Inr ([v], s1))
      | Enc \<Rightarrow> (case enc_out pm ca nncod nnaa (counts s) of
                  Inl e \<Rightarrow> Inl e | Inr (v, ws, st) \<Rightarrow> Inr ([v], s\<lparr>counts := st\<rparr>))
      | GC which \<Rightarrow> Inr (gc_out which ca nncod, s)
      | SilentBase \<Rightarrow> Inr (base_sil_us_out ca nncod nnaa, s)
      | Dinuc \<Rightarrow> Inr (dinuc_out (din s), s)
      | Hydropathicity \<Rightarrow> Inr (hydro_out (pap_hydro s) nnaa, s)
      | Aromaticity \<Rightarrow> Inr (aromo_out (pap_aromo s) nnaa, s)
      | CuTab \<Rightarrow> (case cutab_out pm ca nncod nnaa (counts s) of
                    Inl e \<Rightarrow> Inl e | Inr (out, st) \<Rightarrow> Inr (out, s\<lparr>counts := st\<rparr>)))"

text \<open>
  What a call printed, or the fault that ended it; and calculators called one after the
  other on the shared data. A fault is a call of \<^verbatim>\<open>my_exit\<close>: the programme ends
  there.
\<close>

definition outcome :: "fault + (printed list \<times> shared) \<Rightarrow> fault + printed list" where
  "outcome r = (case r of Inl e \<Rightarrow> Inl e | Inr (out, s) \<Rightarrow> Inr out)"

fun run_seq ::
  "menu \<Rightarrow> user_files \<Rightarrow> calculator list \<Rightarrow> shared \<Rightarrow> fault + (printed list list \<times> shared)" where
  "run_seq pm fs [] s = Inr ([], s)"
| "run_seq pm fs (c # cs) s =
     (case run pm fs c s of
        Inl e \<Rightarrow> Inl e
      | Inr (out, s1) \<Rightarrow>
          (case run_seq pm fs cs s1 of
             Inl e \<Rightarrow> Inl e
           | Inr (outs, s2) \<Rightarrow> Inr (out # outs, s2)))"

text \<open>
  The table \<^verbatim>\<open>cai_out\<close> leaves, in words: a weight below 0.0001 of a codon that is
  neither a stop nor without synonym has become \<^verbatim>\<open>0.01F\<close>.
\<close>

definition cai_clamp :: "cfloat \<Rightarrow> cfloat" where
  "cai_clamp w = (if c_less w (1 / 10000) then Finite float_0_01 else w)"

definition cai_counted :: "nat list \<Rightarrow> nat \<Rightarrow> bool" where
  "cai_counted ca x \<longleftrightarrow> \<not> (ca ! x = 11 \<or> how_synon ca ! x = 1)"

definition spec_cai_table :: "nat list \<Rightarrow> cfloat list \<Rightarrow> cfloat list" where
  "spec_cai_table ca tab =
     map (\<lambda>x. if 1 \<le> x \<and> x \<le> 64 \<and> cai_counted ca x then cai_clamp (tab ! x) else tab ! x)
         [0..<length tab]"

text \<open>No file of the user's: the three pointers are null.\<close>

definition no_files :: user_files where
  "no_files = \<lparr>caifile = None, fopfile = None, cbifile = None\<rparr>"

text \<open>
  The statics before the first call, and shared data for the examples: the counters as
  \<^verbatim>\<open>codon_usage_tot\<close> leaves them for the sequence \<open>NNN\<close>, the standard code, built-in
  weights that are 1 but for a 0 at codon 1, and a built-in classification of 2s.
\<close>

definition example_shared :: shared where
  "example_shared =
     \<lparr>counts = zero_counts\<lparr>ncod := (ncod zero_counts)[0 := 1],
                           naa := (naa zero_counts)[0 := 1], codon_tot := 1\<rparr>,
      din = replicate 3 (replicate 16 0),
      pcu_ca = universal_ca,
      pcai_cai_val = Finite 0 # Finite 0 # replicate 63 (Finite 1),
      pfop_fop_cod = 0 # replicate 64 2,
      pcbi_fop_cod = 0 # replicate 64 2,
      pap_hydro = replicate 23 0,
      pap_aromo = replicate 23 0,
      cai_ttt = False,
      user_cai = replicate 65 (Finite 0),
      first_call_fop = True,
      has_opt_info_fop = replicate 22 0,
      user_fop = replicate 65 0,
      first_call_cbi = True,
      has_opt_info_cbi = replicate 22 0,
      user_cbi = replicate 65 0\<rparr>"

text \<open>
  Shared data \<open>t\<close> as calls of the calculators, with no file of the user's, may leave
  the shared data \<open>s\<close>: \<^verbatim>\<open>codon_tot\<close> may differ, weights may have been raised to
  \<^verbatim>\<open>0.01F\<close>, and \<^verbatim>\<open>has_opt_info\<close> may have been filled by a first call.
\<close>

definition later :: "shared \<Rightarrow> shared \<Rightarrow> bool" where
  "later s t \<longleftrightarrow>
     ncod (counts t) = ncod (counts s) \<and> naa (counts t) = naa (counts s) \<and>
     valid_stops (counts t) = valid_stops (counts s) \<and>
     num_seq_int_stop (counts t) = num_seq_int_stop (counts s) \<and>
     din t = din s \<and> pcu_ca t = pcu_ca s \<and>
     pfop_fop_cod t = pfop_fop_cod s \<and> pcbi_fop_cod t = pcbi_fop_cod s \<and>
     pap_hydro t = pap_hydro s \<and> pap_aromo t = pap_aromo s \<and>
     (pcai_cai_val t = pcai_cai_val s \<or>
      pcai_cai_val t = spec_cai_table (pcu_ca s) (pcai_cai_val s)) \<and>
     (first_call_fop t = first_call_fop s \<and> has_opt_info_fop t = has_opt_info_fop s \<or>
      first_call_fop s \<and> \<not> first_call_fop t \<and>
      has_opt_info_fop t =
        fop_has_opt_info (pcu_ca s) (how_synon (pcu_ca s)) (pfop_fop_cod s)) \<and>
     (first_call_cbi t = first_call_cbi s \<and> has_opt_info_cbi t = has_opt_info_cbi s \<or>
      first_call_cbi s \<and> \<not> first_call_cbi t \<and>
      has_opt_info_cbi t =
        cbi_has_opt_info (pcu_ca s) (how_synon (pcu_ca s)) (pcbi_fop_cod s))"



section \<open>Properties of ident\_codon\<close>

lemma base_value_le: "base_value c \<le> 4"
  by (simp add: base_value_def)

lemma base_value_mod [simp]: "base_value c mod 256 = base_value c"
  using base_value_le [of c] by simp

lemma base_value_NUL [simp]: "base_value NUL = 0"
  by (simp add: base_value_def)

lemmas scan_unroll = ident_scan.simps [of _ 0] ident_scan.simps [of _ "Suc 0"]
  ident_scan.simps [of _ "Suc (Suc 0)"] ident_scan.simps [of _ "Suc (Suc (Suc 0))"]

text \<open>
  On an array that holds three bytes, \<^verbatim>\<open>ident_codon\<close> returns the specification's
  codon number; it leaves the sequence buffer alone and never reads the fourth byte.
\<close>

lemma ident_codon_array:
  "codon m = [Some a, Some b, Some c, d] \<Longrightarrow>
   \<exists>m'. ident_codon (CodonPtr 0) m = Inr (spec_codon_id a b c, m') \<and>
        seq m' = seq m \<and> length (codon m') = 4"
  apply (cases "a = NUL"; cases "b = NUL"; cases "c = NUL")
         apply (auto simp add: ident_codon_def scan_unroll spec_codon_id_def)
  done

lemma ident_codon_terminator:
  "codon m = [Some a, Some b, Some NUL, d] \<Longrightarrow>
   \<exists>m'. ident_codon (CodonPtr 0) m = Inr (0, m') \<and> codon m' ! 2 = Some NUL \<and> codon m' ! 3 = d"
  apply (cases "a = NUL"; cases "b = NUL")
     apply (auto simp add: ident_codon_def scan_unroll)
  done

lemma spec_codon_id_le: "spec_codon_id a b c \<le> 64"
  using base_value_le [of a] base_value_le [of b] base_value_le [of c]
  by (auto simp add: spec_codon_id_def codon_number_def)

lemma in_1_4: "(x::nat) \<in> {1..4} \<longleftrightarrow> x = 1 \<or> x = 2 \<or> x = 3 \<or> x = 4"
  by auto

lemma bases_number:
  "b1 \<in> {1..4} \<Longrightarrow> b2 \<in> {1..4} \<Longrightarrow> b3 \<in> {1..4} \<Longrightarrow>
   codon_bases (codon_number b1 b2 b3) = (b1, b2, b3)"
  unfolding in_1_4 by (elim disjE; simp add: codon_bases_def codon_number_def)

lemma number_range:
  "b1 \<in> {1..4} \<Longrightarrow> b2 \<in> {1..4} \<Longrightarrow> b3 \<in> {1..4} \<Longrightarrow> codon_number b1 b2 b3 \<in> {1..64}"
  by (auto simp: codon_number_def)

lemma bases_range: "n \<in> {1..64} \<Longrightarrow> codon_bases n \<in> {1..4} \<times> {1..4} \<times> {1..4}"
  by (auto simp: codon_bases_def)

lemma number_bases:
  assumes "n \<in> {1..64}"
  shows "(case codon_bases n of (b1, b2, b3) \<Rightarrow> codon_number b1 b2 b3) = n"
proof -
  obtain k where k: "n = Suc k" "k < 64" using assms by (cases n) auto
  have "k div 16 * 16 + (k mod 4 + 1) + k mod 16 div 4 * 4 = Suc k"
  proof -
    have "k mod 16 mod 4 = k mod 4" by (simp add: mod_mod_cancel)
    then have a: "k mod 16 div 4 * 4 + k mod 4 = k mod 16"
      using div_mult_mod_eq [of "k mod 16" 4] by simp
    have b: "k div 16 * 16 + k mod 16 = k" by simp
    show ?thesis using a b by linarith
  qed
  then show ?thesis using k by (simp add: codon_bases_def codon_number_def)
qed

lemma codon_number_bij:
  "bij_betw (\<lambda>(b1, b2, b3). codon_number b1 b2 b3) ({1..4} \<times> {1..4} \<times> {1..4}) {1..64}"
proof (rule bij_betw_byWitness [where f' = codon_bases])
  show "\<forall>a\<in>{1..4} \<times> {1..4} \<times> {1..4}.
          codon_bases (case a of (b1, b2, b3) \<Rightarrow> codon_number b1 b2 b3) = a"
    using bases_number by fastforce
  show "\<forall>n\<in>{1..64}. (case codon_bases n of (b1, b2, b3) \<Rightarrow> codon_number b1 b2 b3) = n"
    using number_bases by blast
  show "(\<lambda>(b1, b2, b3). codon_number b1 b2 b3) ` ({1..4} \<times> {1..4} \<times> {1..4}) \<subseteq> {1..64}"
    using number_range by fastforce
  show "codon_bases ` {1..64} \<subseteq> {1..4} \<times> {1..4} \<times> {1..4}"
    using bases_range by blast
qed

text \<open>
  C2. \<^verbatim>\<open>ident_codon\<close> maps T, t, U, u to 1, C, c to 2, A, a to 3, G, g to 4 and
  every other symbol to 0. Run on an array holding the bytes \<open>a\<close>, \<open>b\<close>, \<open>c\<close> it
  returns 0 when one of them maps to 0, and \<open>(b1 - 1) * 16 + b2 + (b3 - 1) * 4\<close> of the
  three base numbers otherwise; that expression is a bijection from the triples of
  base numbers 1..4 onto 1..64. With the terminator in the third position the function
  returns 0, the terminator stays where it is, and the fourth byte of the array, written
  or not, is not read.
\<close>

theorem ident_codon_correct:
  "base_value CHR ''T'' = 1 \<and> base_value CHR ''t'' = 1 \<and>
   base_value CHR ''U'' = 1 \<and> base_value CHR ''u'' = 1 \<and>
   base_value CHR ''C'' = 2 \<and> base_value CHR ''c'' = 2 \<and>
   base_value CHR ''A'' = 3 \<and> base_value CHR ''a'' = 3 \<and>
   base_value CHR ''G'' = 4 \<and> base_value CHR ''g'' = 4 \<and>
   (x \<notin> set ''TtUuCcAaGg'' \<longrightarrow> base_value x = 0) \<and>
   (\<exists>m'. ident_codon (CodonPtr 0) \<lparr>seq = s, codon = [Some a, Some b, Some c, d]\<rparr> =
           Inr (if base_value a = 0 \<or> base_value b = 0 \<or> base_value c = 0 then 0
                else (base_value a - 1) * 16 + base_value b + (base_value c - 1) * 4, m') \<and>
         seq m' = s) \<and>
   bij_betw (\<lambda>(b1, b2, b3). codon_number b1 b2 b3) ({1..4} \<times> {1..4} \<times> {1..4}) {1..64} \<and>
   (\<exists>m'. ident_codon (CodonPtr 0) \<lparr>seq = s, codon = [Some a, Some b, Some NUL, d]\<rparr> =
           Inr (0, m') \<and> codon m' ! 2 = Some NUL \<and> codon m' ! 3 = d)"
proof -
  have known: "base_value CHR ''T'' = 1 \<and> base_value CHR ''t'' = 1 \<and>
      base_value CHR ''U'' = 1 \<and> base_value CHR ''u'' = 1 \<and>
      base_value CHR ''C'' = 2 \<and> base_value CHR ''c'' = 2 \<and>
      base_value CHR ''A'' = 3 \<and> base_value CHR ''a'' = 3 \<and>
      base_value CHR ''G'' = 4 \<and> base_value CHR ''g'' = 4"
    by (simp add: base_value_def)
  have other: "x \<notin> set ''TtUuCcAaGg'' \<longrightarrow> base_value x = 0"
    by (simp add: base_value_def)
  have run: "\<exists>m'. ident_codon (CodonPtr 0) \<lparr>seq = s, codon = [Some a, Some b, Some c, d]\<rparr> =
           Inr (if base_value a = 0 \<or> base_value b = 0 \<or> base_value c = 0 then 0
                else (base_value a - 1) * 16 + base_value b + (base_value c - 1) * 4, m') \<and>
         seq m' = s"
    using ident_codon_array [of "\<lparr>seq = s, codon = [Some a, Some b, Some c, d]\<rparr>" a b c d]
    by (auto simp add: spec_codon_id_def codon_number_def)
  have stop: "\<exists>m'. ident_codon (CodonPtr 0) \<lparr>seq = s, codon = [Some a, Some b, Some NUL, d]\<rparr> =
           Inr (0, m') \<and> codon m' ! 2 = Some NUL \<and> codon m' ! 3 = d"
    using ident_codon_terminator [of "\<lparr>seq = s, codon = [Some a, Some b, Some NUL, d]\<rparr>" a b d]
    by simp
  show ?thesis using known other run codon_number_bij stop by blast
qed

theorem ident_codon_correct_witness:
  "CHR ''N'' \<notin> set ''TtUuCcAaGg'' \<and> base_value CHR ''N'' = 0 \<and>
   (\<exists>m'. ident_codon (CodonPtr 0)
           \<lparr>seq = [], codon = [Some CHR ''A'', Some CHR ''T'', Some CHR ''G'', None]\<rparr> =
           Inr (45, m') \<and> seq m' = [])"
  using ident_codon_correct [of "CHR ''N''" "[]" "CHR ''A''" "CHR ''T''" "CHR ''G''" None]
  by (simp add: base_value_def)

section \<open>Properties of codon\_usage\_tot\<close>

lemma length_4: "length xs = 4 \<Longrightarrow> \<exists>w x y z. xs = [w, x, y, z]"
  by (auto simp: numeral_eq_Suc length_Suc_conv)

text \<open>\<^verbatim>\<open>strncpy\<close> of a full triplet copies its three bytes into the array.\<close>

lemma strncpy_triplet:
  assumes "i + 2 < length (seq m)" "length (codon m) = 4"
    and "seq m ! i \<noteq> NUL" "seq m ! (i + 1) \<noteq> NUL" "seq m ! (i + 2) \<noteq> NUL"
  shows "\<exists>d. strncpy (CodonPtr 0) (SeqPtr i) 3 m =
           Inr (m\<lparr>codon := [Some (seq m ! i), Some (seq m ! (i + 1)), Some (seq m ! (i + 2)), d]\<rparr>)"
proof -
  obtain w x y z where "codon m = [w, x, y, z]" using length_4 [OF assms(2)] by blast
  then show ?thesis using assms by (auto simp add: numeral_3_eq_3)
qed

lemma drop_triplet:
  assumes "i + 2 < length s"
  shows "drop i s = s ! i # s ! (i + 1) # s ! (i + 2) # drop (i + 3) s"
proof -
  have "drop i s = s ! i # drop (Suc i) s"
    using assms by (simp add: Cons_nth_drop_Suc)
  also have "drop (Suc i) s = s ! (i + 1) # drop (Suc (Suc i)) s"
    using assms by (simp add: Cons_nth_drop_Suc)
  also have "drop (Suc (Suc i)) s = s ! (i + 2) # drop (i + 3) s"
    using assms by (simp add: Cons_nth_drop_Suc numeral_3_eq_3)
  finally show ?thesis .
qed

lemma spec_codon_ids_short: "length xs < 3 \<Longrightarrow> spec_codon_ids xs = []"
  by (cases xs rule: spec_codon_ids.cases) auto

lemma spec_codon_ids_nonempty: "3 \<le> length s \<Longrightarrow> spec_codon_ids s \<noteq> []"
  by (cases s rule: spec_codon_ids.cases) auto

lemma spec_codon_ids_le: "list_all (\<lambda>k. k \<le> 64) (spec_codon_ids s)"
  by (induction s rule: spec_codon_ids.induct) (simp_all add: spec_codon_id_le)

lemma length_spec_codon_ids: "length (spec_codon_ids s) = length s div 3"
  by (induction s rule: spec_codon_ids.induct) simp_all

text \<open>The unsigned \<^verbatim>\<open>seqlen - 2\<close> is the difference only from length 2 on.\<close>

lemma unsigned_bound:
  assumes "2 \<le> n" "n < 2 ^ 32"
  shows "(n mod 2 ^ 32 + 2 ^ 32 - 2) mod 2 ^ 32 = n - (2::nat)"
proof -
  have "n mod 2 ^ 32 + 2 ^ 32 - 2 = (n - 2) + 2 ^ 32" using assms by simp
  moreover have "((n - 2) + 2 ^ 32) mod 2 ^ 32 = (n - 2) mod 2 ^ 32"
    by (rule mod_add_self2)
  moreover have "(n - 2) mod 2 ^ 32 = n - 2" using assms by simp
  ultimately show ?thesis by simp
qed

lemma count_codons_Cons:
  "count_codons ca st (k # ks) = count_codons ca (count_codon ca k st) ks"
  by (simp add: count_codons_def)

lemma strlen_no_NUL:
  assumes "NUL \<notin> set s"
  shows "strlen s = length s"
proof -
  have "takeWhile (\<lambda>c. c \<noteq> NUL) s = s"
    using assms by (induction s) auto
  then show ?thesis unfolding strlen_def by (rule arg_cong)
qed

text \<open>
  The loop, started at offset \<open>i\<close> of a string of at least two bytes, counts the
  triplets from \<open>i\<close> on and leaves the last one's number in \<^verbatim>\<open>icode\<close>.
\<close>

lemma count_loop_spec:
  assumes "NUL \<notin> set s" "2 \<le> length s" "length s < 2 ^ 32"
  shows "seq m = s \<Longrightarrow> length (codon m) = 4 \<Longrightarrow>
     \<exists>m'. count_loop ca (length s) i m st ic =
            Inr (m', count_codons ca st (spec_codon_ids (drop i s)),
                 if spec_codon_ids (drop i s) = [] then ic
                 else Some (last (spec_codon_ids (drop i s)))) \<and>
          seq m' = s \<and> length (codon m') = 4"
proof (induction "length s - i" arbitrary: i m st ic rule: less_induct)
  case less
  have bound: "(length s mod 2 ^ 32 + 2 ^ 32 - 2) mod 2 ^ 32 = length s - 2"
    using assms(2,3) by (rule unsigned_bound)
  show ?case
  proof (cases "i < length s - 2")
    case False
    then have "spec_codon_ids (drop i s) = []"
      by (intro spec_codon_ids_short) simp
    then show ?thesis using False less.prems bound
      by (simp add: count_loop.simps [of ca "length s" i] count_codons_def)
  next
    case True
    then have i2: "i + 2 < length s" by simp
    let ?a = "s ! i" and ?b = "s ! (i + 1)" and ?c = "s ! (i + 2)"
    let ?k = "spec_codon_id ?a ?b ?c"
    have "?a \<in> set s" "?b \<in> set s" "?c \<in> set s" using i2 by simp_all
    then have nn: "?a \<noteq> NUL" "?b \<noteq> NUL" "?c \<noteq> NUL" using assms(1) by auto
    obtain d where cp: "strncpy (CodonPtr 0) (SeqPtr i) 3 m =
        Inr (m\<lparr>codon := [Some ?a, Some ?b, Some ?c, d]\<rparr>)"
      using strncpy_triplet [of i m] i2 nn less.prems by auto
    obtain m2 where id: "ident_codon (CodonPtr 0) (m\<lparr>codon := [Some ?a, Some ?b, Some ?c, d]\<rparr>)
         = Inr (?k, m2)" and m2: "seq m2 = s" "length (codon m2) = 4"
      using ident_codon_array [of "m\<lparr>codon := [Some ?a, Some ?b, Some ?c, d]\<rparr>" ?a ?b ?c d]
        less.prems
      by auto
    have next_i: "(i + 3) mod 2 ^ 32 = i + 3" using i2 assms(3) by simp
    have dr: "drop i s = ?a # ?b # ?c # drop (i + 3) s" by (rule drop_triplet [OF i2])
    have "length s - (i + 3) < length s - i" using i2 by simp
    from less.hyps [OF this m2, of "count_codon ca ?k st" "Some ?k"]
    obtain m' where rec: "count_loop ca (length s) (i + 3) m2 (count_codon ca ?k st) (Some ?k) =
          Inr (m', count_codons ca (count_codon ca ?k st) (spec_codon_ids (drop (i + 3) s)),
            if spec_codon_ids (drop (i + 3) s) = [] then Some ?k
            else Some (last (spec_codon_ids (drop (i + 3) s))))"
      and m': "seq m' = s" "length (codon m') = 4"
      by blast
    have "count_loop ca (length s) i m st ic =
        count_loop ca (length s) (i + 3) m2 (count_codon ca ?k st) (Some ?k)"
      using True bound cp id next_i by (subst count_loop.simps) simp
    then show ?thesis using rec m' dr by (simp add: count_codons_Cons)
  qed
qed

text \<open>What \<^verbatim>\<open>codon_usage_tot\<close> returns on a string of at least two bytes.\<close>

lemma codon_usage_tot_spec:
  assumes "NUL \<notin> set s" "2 \<le> length s" "length s < 2 ^ 32"
  shows "\<exists>m. codon_usage_tot ca s st =
           Inr (if length s mod 3 = 0 then last (spec_codon_ids s) else 0, m,
                (let st1 = count_codons ca st (spec_codon_ids s);
                     st2 = (if length s mod 3 = 0 then st1
                            else st1\<lparr>ncod := (ncod st1)[0 := ncod st1 ! 0 + 1]\<rparr>)
                 in if ca ! (if length s mod 3 = 0 then last (spec_codon_ids s) else 0) = 11
                    then st2\<lparr>valid_stops := valid_stops st2 + 1\<rparr> else st2)) \<and>
         seq m = s"
proof -
  have len: "strlen s mod 2 ^ 32 = length s"
    using assms by (simp add: strlen_no_NUL)
  obtain m' where loop: "count_loop ca (length s) 0 \<lparr>seq = s, codon = replicate 4 None\<rparr> st None =
            Inr (m', count_codons ca st (spec_codon_ids s),
                 if spec_codon_ids s = [] then None else Some (last (spec_codon_ids s)))"
    and m': "seq m' = s"
    using count_loop_spec [OF assms, of "\<lparr>seq = s, codon = replicate 4 None\<rparr>" ca 0 st None]
    by auto
  show ?thesis
  proof (cases "length s mod 3 = 0")
    case True
    then have "3 \<le> length s" using assms(2) by presburger
    then have "spec_codon_ids s \<noteq> []" by (rule spec_codon_ids_nonempty)
    then show ?thesis using True loop m' len
      by (simp add: codon_usage_tot_def Let_def)
  next
    case False
    then show ?thesis using loop m' len
      by (simp add: codon_usage_tot_def Let_def)
  qed
qed

subsection \<open>The sums of the counters\<close>

lemma sum_list_update_int:
  "k < length xs \<Longrightarrow> sum_list (xs[k := x]) = sum_list xs + x - (xs ! k :: int)"
  by (induction xs arbitrary: k) (auto split: nat.split)

lemma sum_range_incr:
  assumes "k < length xs"
  shows "sum_range (xs[k := xs ! k + 1]) lo hi =
         sum_range xs lo hi + (if lo \<le> k \<and> k \<le> hi then 1 else 0)"
proof (cases "lo \<le> k \<and> k \<le> hi")
  case True
  then have "drop lo (xs[k := xs ! k + 1]) = (drop lo xs)[k - lo := xs ! k + 1]"
    by (simp add: drop_update_swap)
  then have "take (hi + 1 - lo) (drop lo (xs[k := xs ! k + 1])) =
             (take (hi + 1 - lo) (drop lo xs))[k - lo := xs ! k + 1]"
    by (simp add: take_update_swap)
  moreover have "k - lo < length (take (hi + 1 - lo) (drop lo xs))"
    using True assms by auto
  moreover have "take (hi + 1 - lo) (drop lo xs) ! (k - lo) = xs ! k"
  proof -
    have "k - lo < hi + 1 - lo" using True by arith
    then show ?thesis using True assms by simp
  qed
  ultimately show ?thesis using True
    by (simp add: sum_range_def sum_list_update_int)
next
  case False
  then consider "k < lo" | "hi < k" by linarith
  then show ?thesis
  proof cases
    case 1
    then show ?thesis by (simp add: sum_range_def)
  next
    case 2
    show ?thesis
    proof (cases "lo \<le> k")
      case True
      then have "drop lo (xs[k := xs ! k + 1]) = (drop lo xs)[k - lo := xs ! k + 1]"
        by (simp add: drop_update_swap)
      moreover have "hi + 1 - lo \<le> k - lo" using 2 True by simp
      ultimately show ?thesis using 2 by (simp add: sum_range_def)
    next
      case False
      then show ?thesis by (simp add: sum_range_def)
    qed
  qed
qed

lemma sum_range_update0: "0 < lo \<Longrightarrow> sum_range (xs[0 := v]) lo hi = sum_range xs lo hi"
  by (simp add: sum_range_def)

lemma valid_code_nth:
  assumes "valid_code ca" "1 \<le> k" "k \<le> 64"
  shows "1 \<le> ca ! k \<and> ca ! k \<le> 21"
proof -
  have "k - 1 < length (tl ca)" using assms by (simp add: valid_code_def)
  moreover have "tl ca ! (k - 1) = ca ! k" using assms by (simp add: valid_code_def nth_tl)
  moreover have "list_all (\<lambda>a. 1 \<le> a \<and> a \<le> 21) (tl ca)"
    using assms by (simp add: valid_code_def)
  ultimately show ?thesis by (metis list_all_length)
qed

text \<open>One pass through the loop body, seen by the sums.\<close>

lemma count_codon_props:
  assumes "valid_code ca" "k \<le> 64" "length (ncod st) = 65" "length (naa st) = 23"
  shows "length (ncod (count_codon ca k st)) = 65"
    and "length (naa (count_codon ca k st)) = 23"
    and "codon_tot (count_codon ca k st) = codon_tot st + 1"
    and "valid_stops (count_codon ca k st) = valid_stops st"
    and "num_seq_int_stop (count_codon ca k st) = num_seq_int_stop st"
    and "sum_range (ncod (count_codon ca k st)) 1 64 =
           sum_range (ncod st) 1 64 + (if k = 0 then 0 else 1)"
    and "ncod (count_codon ca k st) ! 0 = ncod st ! 0 + (if k = 0 then 1 else 0)"
    and "sum_range (naa (count_codon ca k st)) 1 21 =
           sum_range (naa st) 1 21 + (if k = 0 then 0 else 1)"
    and "naa (count_codon ca k st) ! 0 = naa st ! 0 + (if k = 0 then 1 else 0)"
proof -
  show "length (ncod (count_codon ca k st)) = 65" "length (naa (count_codon ca k st)) = 23"
    "codon_tot (count_codon ca k st) = codon_tot st + 1"
    "valid_stops (count_codon ca k st) = valid_stops st"
    "num_seq_int_stop (count_codon ca k st) = num_seq_int_stop st"
    using assms by (simp_all add: count_codon_def)
  show "sum_range (ncod (count_codon ca k st)) 1 64 =
          sum_range (ncod st) 1 64 + (if k = 0 then 0 else 1)"
    using assms by (simp add: count_codon_def sum_range_incr)
  show "ncod (count_codon ca k st) ! 0 = ncod st ! 0 + (if k = 0 then 1 else 0)"
    using assms by (simp add: count_codon_def)
  have a: "ca ! k < 23" "k = 0 \<longrightarrow> ca ! k = 0" "k \<noteq> 0 \<longrightarrow> 1 \<le> ca ! k \<and> ca ! k \<le> 21"
    using valid_code_nth [OF assms(1), of k] assms(1,2)
    by (cases "k = 0"; simp add: valid_code_def)+
  show "sum_range (naa (count_codon ca k st)) 1 21 =
          sum_range (naa st) 1 21 + (if k = 0 then 0 else 1)"
    using assms a by (simp add: count_codon_def sum_range_incr)
  show "naa (count_codon ca k st) ! 0 = naa st ! 0 + (if k = 0 then 1 else 0)"
    using assms a by (auto simp add: count_codon_def)
qed

lemma count_codons_props:
  assumes "valid_code ca"
  shows "list_all (\<lambda>k. k \<le> 64) ids \<Longrightarrow> length (ncod st) = 65 \<Longrightarrow> length (naa st) = 23 \<Longrightarrow>
    length (ncod (count_codons ca st ids)) = 65 \<and>
    length (naa (count_codons ca st ids)) = 23 \<and>
    codon_tot (count_codons ca st ids) = codon_tot st + int (length ids) \<and>
    valid_stops (count_codons ca st ids) = valid_stops st \<and>
    num_seq_int_stop (count_codons ca st ids) = num_seq_int_stop st \<and>
    sum_range (ncod (count_codons ca st ids)) 1 64 =
      sum_range (ncod st) 1 64 + int (length (filter (\<lambda>k. k \<noteq> 0) ids)) \<and>
    ncod (count_codons ca st ids) ! 0 = ncod st ! 0 + int (length (filter (\<lambda>k. k = 0) ids)) \<and>
    sum_range (naa (count_codons ca st ids)) 1 21 =
      sum_range (naa st) 1 21 + int (length (filter (\<lambda>k. k \<noteq> 0) ids)) \<and>
    naa (count_codons ca st ids) ! 0 = naa st ! 0 + int (length (filter (\<lambda>k. k = 0) ids))"
proof (induction ids arbitrary: st)
  case Nil
  then show ?case by (simp add: count_codons_def)
next
  case (Cons k ks)
  have k: "k \<le> 64" and ks: "list_all (\<lambda>k. k \<le> 64) ks" using Cons.prems(1) by simp_all
  note step = count_codon_props [OF assms k Cons.prems(2,3)]
  from Cons.IH [OF ks step(1,2)] show ?case
    unfolding count_codons_Cons step by simp
qed

lemma valid_stops_count_codons [simp]:
  "valid_stops (count_codons ca st ids) = valid_stops st"
  by (induction ids arbitrary: st) (simp_all add: count_codons_def count_codon_def)

subsection \<open>Running the model on a given sequence\<close>

lemma strncpy_numeral:
  "strncpy d s (numeral k) m =
     (case load m s of
        Inl e \<Rightarrow> Inl e
      | Inr c \<Rightarrow>
          if c = NUL then Inr (memset_nul d (Suc (pred_numeral k)) m)
          else strncpy (ptr_add d 1) (ptr_add s 1) (pred_numeral k) (store m d c))"
  by (simp add: numeral_eq_Suc)

lemma memset_nul_numeral:
  "memset_nul d (numeral k) m = memset_nul (ptr_add d 1) (pred_numeral k) (store m d NUL)"
  by (simp add: numeral_eq_Suc)

lemma replicate_numeral: "replicate (numeral k) x = x # replicate (pred_numeral k) x"
  by (simp add: numeral_eq_Suc)

lemma char_of_small [simp]:
  "char_of (0::nat) = NUL" "char_of (Suc 0) = CHR 0x01" "char_of (2::nat) = CHR 0x02"
  "char_of (3::nat) = CHR 0x03" "char_of (4::nat) = CHR 0x04"
  by (simp_all add: char_of_def bit_0)

lemmas run_simps = codon_usage_tot_def strlen_def count_loop.simps strncpy_numeral
  memset_nul_numeral ident_codon_def ident_scan.simps count_codon_def clean_up_def
  zero_counts_def base_value_def codon_number_def replicate_numeral sum_range_def
  universal_ca_def

lemma valid_universal: "valid_code universal_ca"
  by (simp add: valid_code_def universal_ca_def)

text \<open>
  C1, as the code has it. For a sequence of at least two and fewer than \<open>2 ^ 31\<close>
  bytes (\<^verbatim>\<open>seqlen\<close> is an \<^verbatim>\<open>unsigned int\<close> taken from \<^verbatim>\<open>(int)strlen(seq)\<close>), counted from
  cleared counters under a translation table with entry 0 equal to 0 and entries 1..64 in
  1..21: \<^verbatim>\<open>codon_tot\<close> is the number of full triplets, \<open>length s div 3\<close>; the sum of
  \<^verbatim>\<open>ncod[1..64]\<close> is the number of full triplets whose three bases are recognised, and the
  sum of \<^verbatim>\<open>naa[1..21]\<close> equals it; a full triplet with an unrecognised symbol is counted
  in \<^verbatim>\<open>ncod[0]\<close> and in \<^verbatim>\<open>naa[0]\<close>; a trailing partial codon adds one to \<^verbatim>\<open>ncod[0]\<close>
  and nothing to \<^verbatim>\<open>naa\<close>. When every base is recognised the sum of \<^verbatim>\<open>ncod[1..64]\<close> is
  \<open>length s div 3\<close>.
\<close>

theorem count_sequence_sums:
  assumes "valid_code ca" "NUL \<notin> set s" "2 \<le> length s" "length s < 2 ^ 31"
  shows "\<exists>ic m st'. codon_usage_tot ca s (clean_up st) = Inr (ic, m, st') \<and>
     codon_tot st' = int (length s div 3) \<and>
     translated s + untranslated s = length s div 3 \<and>
     (list_all (\<lambda>c. base_value c \<noteq> 0) s \<longrightarrow> untranslated s = 0) \<and>
     sum_range (ncod st') 1 64 = int (translated s) \<and>
     sum_range (naa st') 1 21 = sum_range (ncod st') 1 64 \<and>
     ncod st' ! 0 = int (untranslated s) + (if length s mod 3 = 0 then 0 else 1) \<and>
     naa st' ! 0 = int (untranslated s)"
proof -
  have lt: "length s < 2 ^ 32" using assms(4) by simp
  let ?ids = "spec_codon_ids s"
  let ?st1 = "count_codons ca (clean_up st) ?ids"
  have z: "length (ncod (clean_up st)) = 65" "length (naa (clean_up st)) = 23"
    "codon_tot (clean_up st) = 0" "sum_range (ncod (clean_up st)) 1 64 = 0"
    "sum_range (naa (clean_up st)) 1 21 = 0" "ncod (clean_up st) ! 0 = 0"
    "naa (clean_up st) ! 0 = 0"
    by (simp_all add: clean_up_def sum_range_def sum_list_replicate)
  note p = count_codons_props [OF assms(1) spec_codon_ids_le z(1,2), of s]
  have split: "translated s + untranslated s = length s div 3"
    using sum_length_filter_compl [of "\<lambda>k. k \<noteq> 0" ?ids]
    by (simp add: translated_def untranslated_def length_spec_codon_ids)
  have clean: "list_all (\<lambda>c. base_value c \<noteq> 0) s \<longrightarrow> untranslated s = 0"
    unfolding untranslated_def
    by (induction s rule: spec_codon_ids.induct) (auto simp add: spec_codon_id_def codon_number_def)
  obtain m where r: "codon_usage_tot ca s (clean_up st) =
           Inr (if length s mod 3 = 0 then last ?ids else 0, m,
                (let st1 = ?st1;
                     st2 = (if length s mod 3 = 0 then st1
                            else st1\<lparr>ncod := (ncod st1)[0 := ncod st1 ! 0 + 1]\<rparr>)
                 in if ca ! (if length s mod 3 = 0 then last ?ids else 0) = 11
                    then st2\<lparr>valid_stops := valid_stops st2 + 1\<rparr> else st2))"
    using codon_usage_tot_spec [OF assms(2,3) lt, of ca "clean_up st"] by blast
  show ?thesis
    unfolding r using p z split clean
    by (simp add: Let_def translated_def untranslated_def length_spec_codon_ids sum_range_update0)
qed

theorem count_sequence_sums_witness:
  "valid_code universal_ca \<and> NUL \<notin> set ''ATGNNATAAC'' \<and>
   (\<exists>ic m st'. codon_usage_tot universal_ca ''ATGNNATAAC'' (clean_up zero_counts) = Inr (ic, m, st') \<and>
      codon_tot st' = 3 \<and> sum_range (ncod st') 1 64 = 2 \<and> sum_range (naa st') 1 21 = 2 \<and>
      ncod st' ! 0 = 2 \<and> naa st' ! 0 = 1)"
  using count_sequence_sums [OF valid_universal, of "''ATGNNATAAC''" zero_counts]
  by (auto simp add: valid_universal translated_def untranslated_def spec_codon_id_def
      base_value_def codon_number_def)

text \<open>
  The claim as stated fails on a triplet with an unrecognised symbol: for \<open>NNN\<close> the
  one triplet scanned goes to \<^verbatim>\<open>ncod[0]\<close> and \<^verbatim>\<open>naa[0]\<close>, \<^verbatim>\<open>codon_tot\<close> is 1 and the
  sum of \<^verbatim>\<open>ncod[1..64]\<close> is 0.
\<close>

theorem count_sequence_sums_counterexample:
  "(case codon_usage_tot universal_ca ''NNN'' zero_counts of
      Inl e \<Rightarrow> False
    | Inr (ic, m, st') \<Rightarrow>
        sum_range (ncod st') 1 64 = 0 \<and> codon_tot st' = 1 \<and>
        ncod st' ! 0 = 1 \<and> naa st' ! 0 = 1) \<and>
   length ''NNN'' div 3 = (1::nat)"
  by (simp add: run_simps)

text \<open>
  C6, as the code has it. For a sequence of at least two and fewer than \<open>2 ^ 31\<close> bytes,
  \<^verbatim>\<open>valid_stops\<close> is incremented, once, exactly when the number
  left in \<^verbatim>\<open>icode\<close> translates to the stop: that number is the last full codon's when the
  length is a multiple of three, and 0 when one or two bases trail, so with a table
  whose entry 0 is not the stop a sequence with trailing bases marks no valid stop,
  whatever its last full codon.
\<close>

theorem valid_stop_marked:
  assumes "NUL \<notin> set s" "2 \<le> length s" "length s < 2 ^ 31"
  shows "\<exists>ic m st'. codon_usage_tot ca s st = Inr (ic, m, st') \<and>
     ic = (if length s mod 3 = 0 then last (spec_codon_ids s) else 0) \<and>
     valid_stops st' = valid_stops st + (if ca ! ic = 11 then 1 else 0)"
proof -
  have lt: "length s < 2 ^ 32" using assms(3) by simp
  from codon_usage_tot_spec [OF assms(1,2) lt, of ca st] show ?thesis
    by (auto simp add: Let_def)
qed

theorem valid_stop_marked_witness:
  "NUL \<notin> set ''ATGGCTTAA'' \<and>
   (\<exists>ic m st'. codon_usage_tot universal_ca ''ATGGCTTAA'' zero_counts = Inr (ic, m, st') \<and>
      ic = 11 \<and> valid_stops st' = 1)"
  using valid_stop_marked [of "''ATGGCTTAA''" universal_ca zero_counts]
  by (simp add: spec_codon_id_def base_value_def codon_number_def universal_ca_def
      zero_counts_def clean_up_def)

theorem valid_stop_counterexample:
  "universal_ca ! last (spec_codon_ids ''ATGTAAA'') = 11 \<and>
   (case codon_usage_tot universal_ca ''ATGTAAA'' zero_counts of
      Inl e \<Rightarrow> False
    | Inr (ic, m, st') \<Rightarrow> ic = 0 \<and> valid_stops st' = 0)"
  by (simp add: run_simps spec_codon_id_def)

text \<open>
  C7. On a sequence of one byte, or of none, \<^verbatim>\<open>seqlen - 2\<close> wraps to a number near
  \<open>2^32\<close>: the loop is entered, a codon is counted from the bytes up to the terminator,
  and the second pass copies from offset 3, beyond the end of the buffer.
\<close>

theorem short_sequence_reads_past_end:
  "codon_usage_tot ca ''A'' st = Inl ReadPastEnd \<and>
   codon_usage_tot ca [] st = Inl ReadPastEnd \<and>
   count_loop ca 1 0 \<lparr>seq = ''A'', codon = replicate 4 None\<rparr> st None =
     count_loop ca 1 3 \<lparr>seq = ''A'', codon = [Some (CHR 0x03), Some NUL, Some NUL, None]\<rparr>
       (count_codon ca 0 st) (Some 0)"
proof -
  have "codon_usage_tot ca ''A'' st = Inl ReadPastEnd"
    by (simp add: codon_usage_tot_def strlen_def count_loop.simps [of _ _ 0]
        count_loop.simps [of _ _ 3] strncpy_numeral memset_nul_numeral ident_codon_def
        ident_scan.simps replicate_numeral)
  moreover have "codon_usage_tot ca [] st = Inl ReadPastEnd"
    by (simp add: codon_usage_tot_def strlen_def count_loop.simps [of _ _ 0]
        count_loop.simps [of _ _ 3] strncpy_numeral memset_nul_numeral ident_codon_def
        ident_scan.simps replicate_numeral)
  moreover have "count_loop ca 1 0 \<lparr>seq = ''A'', codon = replicate 4 None\<rparr> st None =
     count_loop ca 1 3 \<lparr>seq = ''A'', codon = [Some (CHR 0x03), Some NUL, Some NUL, None]\<rparr>
       (count_codon ca 0 st) (Some 0)"
    by (subst count_loop.simps)
       (simp add: strncpy_numeral memset_nul_numeral ident_codon_def ident_scan.simps
          replicate_numeral base_value_def)
  ultimately show ?thesis by simp
qed

text \<open>With two bytes the loop is not entered, and the partial codon is counted once.\<close>

lemma two_byte_sequence:
  "a \<noteq> NUL \<Longrightarrow> b \<noteq> NUL \<Longrightarrow>
   codon_usage_tot ca [a, b] st =
     Inr (0, \<lparr>seq = [a, b], codon = replicate 4 None\<rparr>,
          (if ca ! 0 = 11
           then st\<lparr>ncod := (ncod st)[0 := ncod st ! 0 + 1], valid_stops := valid_stops st + 1\<rparr>
           else st\<lparr>ncod := (ncod st)[0 := ncod st ! 0 + 1]\<rparr>))"
  by (simp add: codon_usage_tot_def strlen_def count_loop.simps [of _ _ 0])

subsection \<open>The sequence buffer is only read\<close>

lemma memset_nul_seq [simp]: "seq (memset_nul (CodonPtr d) n m) = seq m"
  by (induction n arbitrary: d m) simp_all

lemma strncpy_seq:
  "strncpy (CodonPtr d) src n m = Inr m' \<Longrightarrow> seq m' = seq m"
proof (induction n arbitrary: d src m)
  case 0
  then show ?case by simp
next
  case (Suc n)
  then show ?case
    by (cases "load m src") (auto split: if_splits)
qed

lemma ident_scan_seq:
  "ident_scan (CodonPtr d) x m = Inr (b, m') \<Longrightarrow> seq m' = seq m"
proof (induction "CodonPtr d" x m rule: ident_scan.induct)
  case (1 x m)
  show ?case
  proof (cases "x < 3")
    case False
    then show ?thesis using "1.prems" by (simp add: ident_scan.simps [of _ x])
  next
    case True
    show ?thesis
    proof (cases "load m (ptr_add (CodonPtr d) x)")
      case (Inl e)
      then show ?thesis using True "1.prems" by (simp add: ident_scan.simps [of _ x])
    next
      case (Inr c)
      show ?thesis
      proof (cases "c = NUL")
        case True
        then show ?thesis using \<open>x < 3\<close> Inr "1.prems" by (simp add: ident_scan.simps [of _ x])
      next
        case False
        have "ident_scan (CodonPtr d) (x + 1)
                (store m (ptr_add (CodonPtr d) x) (char_of (base_value c))) = Inr (b, m')"
          using \<open>x < 3\<close> Inr False "1.prems" by (simp add: ident_scan.simps [of _ x])
        from "1.hyps" [OF \<open>x < 3\<close> Inr False this] show ?thesis by simp
      qed
    qed
  qed
qed

lemma ident_codon_seq:
  "ident_codon (CodonPtr d) m = Inr (ic, m') \<Longrightarrow> seq m' = seq m"
  unfolding ident_codon_def
  by (auto split: sum.splits bool.splits if_splits dest: ident_scan_seq)

lemma count_loop_seq:
  "count_loop ca seqlen i m st icode = Inr (m', st', icode') \<Longrightarrow> seq m' = seq m"
proof (induction ca seqlen i m st icode rule: count_loop.induct)
  case (1 ca seqlen i m st icode)
  show ?case
  proof (cases "i < (seqlen mod 2 ^ 32 + 2 ^ 32 - 2) mod 2 ^ 32")
    case False
    then show ?thesis using "1.prems" by (simp add: count_loop.simps [of ca seqlen i])
  next
    case True
    from True "1.prems" obtain m1 ic m2 where
      cp: "strncpy (CodonPtr 0) (SeqPtr i) 3 m = Inr m1" and
      id: "ident_codon (CodonPtr 0) m1 = Inr (ic, m2)" and
      rec: "count_loop ca seqlen ((i + 3) mod 2 ^ 32) m2 (count_codon ca ic st) (Some ic) =
              Inr (m', st', icode')"
      by (subst (asm) count_loop.simps) (auto split: sum.splits)
    have "seq m' = seq m2" using "1.IH" [OF True cp _ _ rec] id by simp
    then show ?thesis using strncpy_seq [OF cp] ident_codon_seq [OF id] by simp
  qed
qed

text \<open>
  Through a pointer into the sequence itself \<^verbatim>\<open>ident_codon\<close> does overwrite the bases:
  the copy into the local array is what protects the caller's buffer.
\<close>

lemma ident_codon_rewrites_in_place:
  "ident_codon (SeqPtr 0) \<lparr>seq = ''ATG'', codon = []\<rparr> =
     Inr (45, \<lparr>seq = [CHR 0x03, CHR 0x01, CHR 0x04], codon = []\<rparr>)"
  by (simp add: ident_codon_def ident_scan.simps base_value_def codon_number_def)

text \<open>
  C10. Whenever \<^verbatim>\<open>codon_usage_tot\<close> returns, every byte of the caller's sequence buffer
  is what it was; and it does return on every sequence of at least two bytes. A shorter
  sequence takes the loop outside the buffer; no byte has been written to it when that
  happens, since every store of the function goes to the local array.
\<close>

theorem sequence_buffer_unchanged:
  "(\<forall>ic m st'. codon_usage_tot ca s st = Inr (ic, m, st') \<longrightarrow> seq m = s) \<and>
   (NUL \<notin> set s \<and> 2 \<le> length s \<and> length s < 2 ^ 31 \<longrightarrow>
      (\<exists>ic m st'. codon_usage_tot ca s st = Inr (ic, m, st')))"
proof
  show "\<forall>ic m st'. codon_usage_tot ca s st = Inr (ic, m, st') \<longrightarrow> seq m = s"
    unfolding codon_usage_tot_def Let_def
    by (auto split: sum.splits prod.splits option.splits if_splits dest: count_loop_seq)
  show "NUL \<notin> set s \<and> 2 \<le> length s \<and> length s < 2 ^ 31 \<longrightarrow>
      (\<exists>ic m st'. codon_usage_tot ca s st = Inr (ic, m, st'))"
  proof
    assume h: "NUL \<notin> set s \<and> 2 \<le> length s \<and> length s < 2 ^ 31"
    then have "length s < 2 ^ 32" by simp
    with h codon_usage_tot_spec [of s ca st] show "\<exists>ic m st'. codon_usage_tot ca s st = Inr (ic, m, st')"
      by blast
  qed
qed

theorem sequence_buffer_unchanged_witness:
  "NUL \<notin> set ''ATGTAGGCTTAA'' \<and>
   (\<exists>ic m st'. codon_usage_tot universal_ca ''ATGTAGGCTTAA'' zero_counts = Inr (ic, m, st') \<and>
      seq m = ''ATGTAGGCTTAA'')"
  using sequence_buffer_unchanged [of universal_ca "''ATGTAGGCTTAA''" zero_counts]
  by auto

section \<open>Properties of codon\_error\<close>

lemma foldl_pair_sums:
  "foldl (\<lambda>(a, b) i. (a + f i, if P i then b + f i else b)) (a0, b0) xs =
     (a0 + sum_list (map f xs), b0 + sum_list (map (\<lambda>i. if P i then f i else (0::int)) xs))"
  by (induction xs arbitrary: a0 b0) simp_all

lemma count_stops_snd: "snd (count_stops ca nc) = spec_stop_count ca nc"
proof -
  have "{1..64::nat} = set [1..<65]" by auto
  then have "spec_stop_count ca nc =
      sum_list (map (\<lambda>i. if ca ! i = 11 then nc ! i else 0) [1..<65])"
    unfolding spec_stop_count_def by (simp only: sum_list_distinct_conv_sum_set distinct_upt)
  then show ?thesis by (simp add: count_stops_def foldl_pair_sums)
qed

lemma count_stops_fst:
  assumes "length nc = 65"
  shows "fst (count_stops ca nc) = sum_range nc 1 64"
proof -
  have "map ((!) nc) [1..<65] = take 64 (drop 1 nc)"
    using assms by (auto simp add: list_eq_iff_nth_eq)
  then show ?thesis by (simp add: count_stops_def foldl_pair_sums sum_range_def)
qed

lemma upt_1_65:
  "[Suc 0..<65] =
     [1, 2, 3, 4, 5, 6, 7, 8, 9, 10, 11, 12, 13, 14, 15, 16,
      17, 18, 19, 20, 21, 22, 23, 24, 25, 26, 27, 28, 29, 30, 31, 32,
      33, 34, 35, 36, 37, 38, 39, 40, 41, 42, 43, 44, 45, 46, 47, 48,
      49, 50, 51, 52, 53, 54, 55, 56, 57, 58, 59, 60, 61, 62, 63, 64]"
  by (simp add: upt_conv_Cons)

text \<open>
  C8, as the code has it. At the internal-stop level \<^verbatim>\<open>codon_error\<close> warns exactly
  when warnings are enabled (\<^verbatim>\<open>pm->warn\<close>) and the number of stop codons among the counted
  codons minus \<^verbatim>\<open>valid_stops\<close> is not zero, which for counters with
  \<^verbatim>\<open>valid_stops\<close> at most the number of stops is the same as greater than zero. It then
  prints one warning, the per-sequence one or the aggregated one of totals mode, and
  increments \<^verbatim>\<open>num_seq_int_stop\<close>; otherwise the counters are left as they are. Counting
  \<open>ATGTAGGCTTAA\<close> under the standard code and checking with warnings enabled gives
  exactly one warning, of one internal stop codon.
\<close>

theorem internal_stop_warning:
  "(\<exists>tot ws st'. codon_error x y 1 pm ca st = Inr (tot, ws, st') \<and>
      (ws \<noteq> [] \<longleftrightarrow> warn pm \<and> spec_stop_count ca (ncod st) - valid_stops st \<noteq> 0) \<and>
      (valid_stops st \<le> spec_stop_count ca (ncod st) \<longrightarrow>
         (ws \<noteq> [] \<longleftrightarrow> warn pm \<and> 0 < spec_stop_count ca (ncod st) - valid_stops st)) \<and>
      (ws \<noteq> [] \<longrightarrow>
         ws = [if totals pm
               then InternalStopsTotals (spec_stop_count ca (ncod st) - valid_stops st)
               else InternalStops (spec_stop_count ca (ncod st) - valid_stops st)]) \<and>
      st' = (if ws \<noteq> [] then st\<lparr>num_seq_int_stop := num_seq_int_stop st + 1\<rparr> else st)) \<and>
   (case codon_usage_tot universal_ca ''ATGTAGGCTTAA'' zero_counts of
      Inl e \<Rightarrow> False
    | Inr (ic, m, st1) \<Rightarrow>
        codon_error ic 1 1 \<lparr>warn = True, totals = False\<rparr> universal_ca st1 =
          Inr (4, [InternalStops 1], st1\<lparr>num_seq_int_stop := 1\<rparr>))"
proof
  obtain tot ns where cs: "count_stops ca (ncod st) = (tot, ns)" by (cases "count_stops ca (ncod st)")
  then have ns: "ns = spec_stop_count ca (ncod st)" using count_stops_snd [of ca "ncod st"] by simp
  show "\<exists>tot ws st'. codon_error x y 1 pm ca st = Inr (tot, ws, st') \<and>
      (ws \<noteq> [] \<longleftrightarrow> warn pm \<and> spec_stop_count ca (ncod st) - valid_stops st \<noteq> 0) \<and>
      (valid_stops st \<le> spec_stop_count ca (ncod st) \<longrightarrow>
         (ws \<noteq> [] \<longleftrightarrow> warn pm \<and> 0 < spec_stop_count ca (ncod st) - valid_stops st)) \<and>
      (ws \<noteq> [] \<longrightarrow>
         ws = [if totals pm
               then InternalStopsTotals (spec_stop_count ca (ncod st) - valid_stops st)
               else InternalStops (spec_stop_count ca (ncod st) - valid_stops st)]) \<and>
      st' = (if ws \<noteq> [] then st\<lparr>num_seq_int_stop := num_seq_int_stop st + 1\<rparr> else st)"
    using cs ns by (auto simp add: codon_error_def Let_def)
  show "case codon_usage_tot universal_ca ''ATGTAGGCTTAA'' zero_counts of
      Inl e \<Rightarrow> False
    | Inr (ic, m, st1) \<Rightarrow>
        codon_error ic 1 1 \<lparr>warn = True, totals = False\<rparr> universal_ca st1 =
          Inr (4, [InternalStops 1], st1\<lparr>num_seq_int_stop := 1\<rparr>)"
    by (simp add: run_simps codon_error_def count_stops_def upt_1_65)
qed

theorem internal_stop_warning_witness:
  "valid_stops (zero_counts\<lparr>ncod := (ncod zero_counts)[15 := 1]\<rparr>)
     \<le> spec_stop_count universal_ca (ncod (zero_counts\<lparr>ncod := (ncod zero_counts)[15 := 1]\<rparr>)) \<and>
   (\<exists>tot st'. codon_error 0 0 1 \<lparr>warn = True, totals = True\<rparr> universal_ca
                (zero_counts\<lparr>ncod := (ncod zero_counts)[15 := 1]\<rparr>) =
              Inr (tot, [InternalStopsTotals 1], st') \<and> num_seq_int_stop st' = 1)"
  using internal_stop_warning [of 0 0 "\<lparr>warn = True, totals = True\<rparr>" universal_ca
      "zero_counts\<lparr>ncod := (ncod zero_counts)[15 := 1]\<rparr>"]
  by (simp add: codon_error_def count_stops_snd [symmetric] count_stops_def upt_1_65
      zero_counts_def clean_up_def universal_ca_def replicate_numeral)

text \<open>
  The claim as stated fails in two ways. With warnings disabled nothing is printed and
  nothing is counted, although the sequence has an internal stop; and with warnings
  enabled, counters in which \<^verbatim>\<open>valid_stops\<close> exceeds the stops counted give a warning,
  of \<open>-1\<close> codons, although the difference is not greater than zero.
\<close>

theorem internal_stop_warning_counterexample:
  "(case codon_usage_tot universal_ca ''ATGTAGGCTTAA'' zero_counts of
      Inl e \<Rightarrow> False
    | Inr (ic, m, st1) \<Rightarrow>
        0 < spec_stop_count universal_ca (ncod st1) - valid_stops st1 \<and>
        codon_error ic 1 1 \<lparr>warn = False, totals = False\<rparr> universal_ca st1 = Inr (4, [], st1)) \<and>
   codon_error 0 0 1 \<lparr>warn = True, totals = False\<rparr> universal_ca (zero_counts\<lparr>valid_stops := 1\<rparr>) =
     Inr (0, [InternalStops (- 1)], zero_counts\<lparr>valid_stops := 1, num_seq_int_stop := 1\<rparr>)"
  by (simp add: run_simps codon_error_def count_stops_snd [symmetric] count_stops_def upt_1_65)

section \<open>Properties of the loaders\<close>

lemma accepted_iff: "isdigit c \<and> 0 \<le> atoi_char c \<and> atoi_char c \<le> 3 \<longleftrightarrow> accepted_digit c"
proof -
  have e: "(of_char c :: nat) = 48 \<longleftrightarrow> c = CHR ''0''" "(of_char c :: nat) = 49 \<longleftrightarrow> c = CHR ''1''"
    "(of_char c :: nat) = 50 \<longleftrightarrow> c = CHR ''2''" "(of_char c :: nat) = 51 \<longleftrightarrow> c = CHR ''3''"
    using of_char_eq_iff [of c "CHR ''0''", where ?'a = nat] of_char_eq_iff [of c "CHR ''1''", where ?'a = nat]
      of_char_eq_iff [of c "CHR ''2''", where ?'a = nat] of_char_eq_iff [of c "CHR ''3''", where ?'a = nat]
    by simp_all
  have "isdigit c \<and> 0 \<le> atoi_char c \<and> atoi_char c \<le> 3 \<longleftrightarrow>
        (of_char c :: nat) = 48 \<or> (of_char c :: nat) = 49 \<or> (of_char c :: nat) = 50 \<or> (of_char c :: nat) = 51"
    by (auto simp add: isdigit_def atoi_char_def)
  then show ?thesis by (simp add: accepted_digit_def e)
qed

lemma read_digits_spec:
  "length tab \<le> 65 \<Longrightarrow>
   read_digits src tab =
     (if length tab + length (filter accepted_digit src) \<le> 65
      then Inr (tab @ map atoi_char (filter accepted_digit src))
      else Inl WritePastEnd)"
proof (induction src arbitrary: tab)
  case Nil
  then show ?case by simp
next
  case (Cons c cs)
  show ?case
  proof (cases "accepted_digit c")
    case False
    then show ?thesis using Cons.prems Cons.IH [of tab] accepted_iff [of c] by auto
  next
    case acc: True
    show ?thesis
    proof (cases "length tab < 65")
      case True
      then show ?thesis
        using acc Cons.IH [of "tab @ [atoi_char c]"] accepted_iff [of c]
        by (auto simp add: table_size_def)
    next
      case False
      then show ?thesis using acc Cons.prems accepted_iff [of c] by (auto simp add: table_size_def)
    qed
  qed
qed

lemma load_cbi_file_spec:
  "load_cbi_file src =
     (if length (filter accepted_digit src) = 64
      then Inr (0 # map atoi_char (filter accepted_digit src))
      else if length (filter accepted_digit src) < 64
      then Inl (Exit 99 (CbiFileCount (length (filter accepted_digit src))))
      else Inl WritePastEnd)"
  by (simp add: load_cbi_file_def read_digits_spec)

lemma load_fop_file_spec:
  "load_fop_file src =
     (if length (filter accepted_digit src) = 64
      then Inr (0 # map atoi_char (filter accepted_digit src))
      else if length (filter accepted_digit src) < 64
      then Inl (Exit 99 (FopFileCount (length (filter accepted_digit src))))
      else Inl WritePastEnd)"
  by (simp add: load_fop_file_def read_digits_spec)

lemma read_cai_values_spec:
  "length tab \<le> 65 \<Longrightarrow>
   read_cai_values (numbers vs) ftemp tab =
     (if length tab + length (takeWhile (\<lambda>v. 0 \<le> v \<and> v \<le> 1) vs) \<le> 65
      then (if list_all (\<lambda>v. 0 \<le> v \<and> v \<le> 1) vs then Inr (tab @ map Finite vs)
            else Inl (Exit 99 CaiValueOutOfRange))
      else Inl WritePastEnd)"
proof (induction vs arbitrary: tab ftemp)
  case Nil
  then show ?case by (simp add: numbers_def)
next
  case (Cons v vs)
  show ?case
  proof (cases "0 \<le> v \<and> v \<le> 1")
    case False
    then show ?thesis using Cons.prems by (auto simp add: numbers_def)
  next
    case r: True
    show ?thesis
    proof (cases "length tab < 65")
      case True
      then show ?thesis
        using r Cons.IH [of "tab @ [Finite v]" "Some (Finite v)"]
        by (auto simp add: numbers_def table_size_def)
    next
      case False
      then show ?thesis using r Cons.prems by (auto simp add: numbers_def table_size_def)
    qed
  qed
qed

lemma load_cai_file_spec:
  "length (takeWhile (\<lambda>v. 0 \<le> v \<and> v \<le> 1) vs) \<le> 64 \<Longrightarrow>
   load_cai_file (numbers vs) =
     (if \<not> list_all (\<lambda>v. 0 \<le> v \<and> v \<le> 1) vs then Inl (Exit 99 CaiValueOutOfRange)
      else if length vs = 64 then Inr (Finite 0 # map Finite vs)
      else Inl (Exit 99 (CaiFileCount (length vs))))"
  by (simp add: load_cai_file_def read_cai_values_spec)

text \<open>
  What the loaders do beyond the sixty-fourth entry, with a text that is no number, and
  with a not-a-number: the store past the end of the array, the never-ending loop that
  comes to it, the read of \<^verbatim>\<open>ftemp\<close> before it was given a value, and a table of
  not-a-numbers, which are neither below 0 nor above 1.
\<close>

lemma sixty_fifth_digit:
  "64 < length (filter accepted_digit src) \<Longrightarrow>
   load_fop_file src = Inl WritePastEnd \<and> load_cbi_file src = Inl WritePastEnd"
  by (simp add: load_fop_file_spec load_cbi_file_spec)

lemma sixty_fifth_weight:
  "list_all (\<lambda>v. 0 \<le> v \<and> v \<le> 1) vs \<Longrightarrow> 64 < length vs \<Longrightarrow>
   load_cai_file (numbers vs) = Inl WritePastEnd"
proof -
  assume a: "list_all (\<lambda>v. 0 \<le> v \<and> v \<le> 1) vs" and l: "64 < length vs"
  have t: "takeWhile (\<lambda>v. 0 \<le> v \<and> v \<le> 1) vs = vs"
    using a by (simp add: list_all_iff)
  show ?thesis
    using l by (simp add: load_cai_file_def read_cai_values_spec t)
qed

lemma no_number_first: "load_cai_file (NoConversion # src) = Inl UninitialisedRead"
  by (simp add: load_cai_file_def)

lemma store_again:
  "\<not> c_less v 0 \<Longrightarrow> \<not> c_greater v 1 \<Longrightarrow> length tab \<le> 65 \<Longrightarrow>
   read_cai_values (NoConversion # src) (Some v) tab = Inl WritePastEnd"
proof (induction "65 - length tab" arbitrary: tab)
  case 0
  then show ?case by (simp add: table_size_def)
next
  case (Suc n)
  from Suc.hyps(2) have "n = 65 - length (tab @ [v])" "length (tab @ [v]) \<le> 65" by simp_all
  from Suc.hyps(1) [OF this(1) Suc.prems(1,2) this(2)] show ?case
    using Suc.prems Suc.hyps(2) by (simp add: table_size_def)
qed

lemma no_number_later:
  "0 \<le> v \<Longrightarrow> v \<le> 1 \<Longrightarrow> load_cai_file (Converted (Finite v) # NoConversion # src) = Inl WritePastEnd"
  by (simp add: load_cai_file_def table_size_def store_again)

lemma not_a_number_loads:
  "load_cai_file (replicate 64 (Converted NaN)) = Inr (Finite 0 # replicate 64 NaN)"
proof -
  have "length tab + n \<le> 65 \<Longrightarrow>
        read_cai_values (replicate n (Converted NaN)) ftemp tab = Inr (tab @ replicate n NaN)"
    for n tab ftemp
  proof (induction n arbitrary: tab ftemp)
    case 0
    then show ?case by simp
  next
    case (Suc n)
    from Suc.IH [of "tab @ [NaN]" "Some NaN"] Suc.prems show ?case
      by (simp add: table_size_def replicate_app_Cons_same)
  qed
  from this [of "[Finite 0]" 64 None] show ?thesis by (simp add: load_cai_file_def)
qed

text \<open>
  C5, as the code has it. A classification file with no more than 64 of the digits 0, 1,
  2 and 3 loads exactly when it has 64 of them, and the table is those digits in their
  order; every other byte is passed over, the digits 4 to 9 among them; with fewer than
  64 the run ends with the count error, which tells the number found. A file of finite
  weights ends the run at the first weight outside \<open>[0, 1]\<close>, when that one is among
  the first 65; with every weight in range and no more than 64 of them it loads exactly
  when there are 64, and ends the run with the count error otherwise: 63 weights are
  never padded.
\<close>

theorem reference_table_loading:
  "(length (filter accepted_digit src) \<le> 64 \<longrightarrow>
      load_fop_file src =
        (if length (filter accepted_digit src) = 64
         then Inr (0 # map atoi_char (filter accepted_digit src))
         else Inl (Exit 99 (FopFileCount (length (filter accepted_digit src))))) \<and>
      load_cbi_file src =
        (if length (filter accepted_digit src) = 64
         then Inr (0 # map atoi_char (filter accepted_digit src))
         else Inl (Exit 99 (CbiFileCount (length (filter accepted_digit src)))))) \<and>
   (length (takeWhile (\<lambda>v. 0 \<le> v \<and> v \<le> 1) vs) \<le> 64 \<longrightarrow>
      load_cai_file (numbers vs) =
        (if \<not> list_all (\<lambda>v. 0 \<le> v \<and> v \<le> 1) vs then Inl (Exit 99 CaiValueOutOfRange)
         else if length vs = 64 then Inr (Finite 0 # map Finite vs)
         else Inl (Exit 99 (CaiFileCount (length vs))))) \<and>
   (list_all (\<lambda>v. 0 \<le> v \<and> v \<le> 1) vs \<and> length vs = 63 \<longrightarrow>
      load_cai_file (numbers vs) = Inl (Exit 99 (CaiFileCount 63)))"
proof (intro conjI impI)
  assume "length (filter accepted_digit src) \<le> 64"
  then show "load_fop_file src =
        (if length (filter accepted_digit src) = 64
         then Inr (0 # map atoi_char (filter accepted_digit src))
         else Inl (Exit 99 (FopFileCount (length (filter accepted_digit src)))))"
    by (simp add: load_fop_file_spec)
next
  assume "length (filter accepted_digit src) \<le> 64"
  then show "load_cbi_file src =
        (if length (filter accepted_digit src) = 64
         then Inr (0 # map atoi_char (filter accepted_digit src))
         else Inl (Exit 99 (CbiFileCount (length (filter accepted_digit src)))))"
    by (simp add: load_cbi_file_spec)
next
  assume "length (takeWhile (\<lambda>v. 0 \<le> v \<and> v \<le> 1) vs) \<le> 64"
  then show "load_cai_file (numbers vs) =
        (if \<not> list_all (\<lambda>v. 0 \<le> v \<and> v \<le> 1) vs then Inl (Exit 99 CaiValueOutOfRange)
         else if length vs = 64 then Inr (Finite 0 # map Finite vs)
         else Inl (Exit 99 (CaiFileCount (length vs))))"
    by (rule load_cai_file_spec)
next
  assume a: "list_all (\<lambda>v. 0 \<le> v \<and> v \<le> 1) vs \<and> length vs = 63"
  have "length (takeWhile (\<lambda>v. 0 \<le> v \<and> v \<le> 1) vs) \<le> length vs"
    by (rule length_takeWhile_le)
  then have "length (takeWhile (\<lambda>v. 0 \<le> v \<and> v \<le> 1) vs) \<le> 64" using a by simp
  from load_cai_file_spec [OF this] a
  show "load_cai_file (numbers vs) = Inl (Exit 99 (CaiFileCount 63))" by simp
qed

theorem reference_table_loading_witness:
  "length (filter accepted_digit
      ''1231231231231231231231231231231231231231231231231231231231231231'') \<le> 64 \<and>
   length (takeWhile (\<lambda>v. 0 \<le> v \<and> v \<le> 1) (replicate 63 (1 / 2 :: real))) \<le> 64 \<and>
   list_all (\<lambda>v. 0 \<le> v \<and> v \<le> 1) (replicate 63 (1 / 2 :: real)) \<and>
   length (replicate 63 (1 / 2 :: real)) = 63 \<and>
   load_cai_file (numbers (replicate 63 (1 / 2))) = Inl (Exit 99 (CaiFileCount 63)) \<and>
   load_fop_file ''1231231231231231231231231231231231231231231231231231231231231231'' =
     Inr [0, 1, 2, 3, 1, 2, 3, 1, 2, 3, 1, 2, 3, 1, 2, 3, 1, 2, 3, 1, 2, 3, 1, 2, 3, 1, 2, 3,
          1, 2, 3, 1, 2, 3, 1, 2, 3, 1, 2, 3, 1, 2, 3, 1, 2, 3, 1, 2, 3, 1, 2, 3, 1, 2, 3,
          1, 2, 3, 1, 2, 3, 1, 2, 3, 1]"
  using reference_table_loading
    [of "''1231231231231231231231231231231231231231231231231231231231231231''"
        "replicate 63 (1 / 2)"]
  by (simp add: accepted_digit_def atoi_char_def isdigit_def list_all_length)

text \<open>
  The claim as stated fails on the digit 4: a file of a 4 and sixty-four 1s loads, the
  4 passed over; and where a 4 takes the place of a digit, the error is the count
  error.
\<close>

theorem reference_table_loading_counterexample:
  "load_fop_file (CHR ''4'' # replicate 64 CHR ''1'') = Inr (0 # replicate 64 1) \<and>
   load_cbi_file (CHR ''4'' # replicate 64 CHR ''1'') = Inr (0 # replicate 64 1) \<and>
   load_fop_file (replicate 63 CHR ''1'' @ ''4'') = Inl (Exit 99 (FopFileCount 63))"
  by (simp add: load_fop_file_spec load_cbi_file_spec accepted_digit_def atoi_char_def
      isdigit_def)

section \<open>Properties of the calculators on the shared data\<close>

lemma cai_clamp_idem [simp]: "cai_clamp (cai_clamp w) = cai_clamp w"
  by (cases w) (simp_all add: cai_clamp_def float_0_01_def)

lemma cai_step_eq:
  "x < length t \<Longrightarrow>
   cai_step ca (how_synon ca) nncod (t, s, n) x =
     (if cai_counted ca x
      then (t[x := cai_clamp (t ! x)],
            c_add s (c_mul (Finite (real_of_int (nncod ! x))) (c_log (cai_clamp (t ! x)))),
            n + nncod ! x)
      else (t, s, n))"
  by (auto simp add: cai_step_def cai_counted_def cai_clamp_def Let_def)

lemma cai_foldl_table:
  "distinct xs \<Longrightarrow> \<forall>x \<in> set xs. x < length t \<Longrightarrow>
   fst (foldl (cai_step ca (how_synon ca) nncod) (t, s, n) xs) =
     map (\<lambda>x. if x \<in> set xs \<and> cai_counted ca x then cai_clamp (t ! x) else t ! x) [0..<length t]"
proof (induction xs arbitrary: t s n)
  case Nil
  then show ?case by (simp add: map_nth)
next
  case (Cons x xs)
  have xl: "x < length t" and xn: "x \<notin> set xs" and d: "distinct xs"
    and rest: "\<forall>y \<in> set xs. y < length t"
    using Cons.prems by auto
  show ?case
  proof (cases "cai_counted ca x")
    case False
    then show ?thesis
      using Cons.IH [OF d rest, of s n] xl
      by (auto simp add: cai_step_eq intro!: map_cong)
  next
    case True
    let ?t = "t[x := cai_clamp (t ! x)]"
    let ?s = "c_add s (c_mul (Finite (real_of_int (nncod ! x))) (c_log (cai_clamp (t ! x))))"
    have rest': "\<forall>y \<in> set xs. y < length ?t" using rest by simp
    have m1: "map (\<lambda>y. if y \<in> set xs \<and> cai_counted ca y then cai_clamp (?t ! y) else ?t ! y) [0..<length ?t] =
              map (\<lambda>y. if y \<in> set (x # xs) \<and> cai_counted ca y then cai_clamp (t ! y) else t ! y) [0..<length t]"
      using True xl xn by (auto simp add: nth_list_update intro!: map_cong)
    have "foldl (cai_step ca (how_synon ca) nncod) (t, s, n) (x # xs) =
          foldl (cai_step ca (how_synon ca) nncod) (?t, ?s, n + nncod ! x) xs"
      using True xl by (simp add: cai_step_eq)
    then show ?thesis
      using Cons.IH [OF d rest', of ?s "n + nncod ! x"] m1 by simp
  qed
qed

lemma cai_sim:
  "\<forall>x \<in> set xs. x < length t1 \<Longrightarrow> length t2 = length t1 \<Longrightarrow>
   \<forall>x \<in> set xs. cai_clamp (t2 ! x) = cai_clamp (t1 ! x) \<Longrightarrow>
   snd (foldl (cai_step ca (how_synon ca) nncod) (t2, s, n) xs) =
   snd (foldl (cai_step ca (how_synon ca) nncod) (t1, s, n) xs)"
proof (induction xs arbitrary: t1 t2 s n)
  case Nil
  then show ?case by simp
next
  case (Cons x xs)
  have xl: "x < length t1" "x < length t2" using Cons.prems by simp_all
  have c: "cai_clamp (t2 ! x) = cai_clamp (t1 ! x)" using Cons.prems by simp
  show ?case
  proof (cases "cai_counted ca x")
    case False
    then show ?thesis using Cons.IH [of t1 t2 s n] Cons.prems xl by (simp add: cai_step_eq)
  next
    case True
    let ?t1 = "t1[x := cai_clamp (t1 ! x)]"
    let ?t2 = "t2[x := cai_clamp (t1 ! x)]"
    have a: "\<forall>y \<in> set xs. y < length ?t1" using Cons.prems by simp
    have b: "length ?t2 = length ?t1" using Cons.prems by simp
    have r: "\<forall>y \<in> set xs. cai_clamp (?t2 ! y) = cai_clamp (?t1 ! y)"
      using Cons.prems xl by (auto simp add: nth_list_update)
    show ?thesis
      using Cons.IH [OF a b r] True xl c by (simp add: cai_step_eq)
  qed
qed

lemma spec_cai_table_nth:
  "x < length tab \<Longrightarrow>
   spec_cai_table ca tab ! x =
     (if 1 \<le> x \<and> x \<le> 64 \<and> cai_counted ca x then cai_clamp (tab ! x) else tab ! x)"
  by (simp add: spec_cai_table_def)

lemma length_spec_cai_table [simp]: "length (spec_cai_table ca tab) = length tab"
  by (simp add: spec_cai_table_def)

lemma spec_cai_table_idem: "spec_cai_table ca (spec_cai_table ca tab) = spec_cai_table ca tab"
  by (rule nth_equalityI) (simp_all add: spec_cai_table_nth)

lemma cai_loop_table:
  assumes "length tab = 65"
  shows "snd (cai_loop ca tab nncod) = spec_cai_table ca tab"
proof -
  have m: "map (\<lambda>x. if x \<in> set [1..<65] \<and> cai_counted ca x then cai_clamp (tab ! x) else tab ! x)
             [0..<length tab] = spec_cai_table ca tab"
    unfolding spec_cai_table_def by (rule map_cong) auto
  have "fst (foldl (cai_step ca (how_synon ca) nncod) (tab, Finite 0, 0) [1..<65]) =
        spec_cai_table ca tab"
    using cai_foldl_table [of "[1..<65]" tab ca nncod "Finite 0" 0] assms m by simp
  then show ?thesis by (simp add: cai_loop_def case_prod_beta)
qed

lemma cai_loop_again:
  assumes "length tab = 65"
  shows "fst (cai_loop ca (spec_cai_table ca tab) nncod) = fst (cai_loop ca tab nncod)"
proof -
  have "snd (foldl (cai_step ca (how_synon ca) nncod) (spec_cai_table ca tab, Finite 0, 0) [1..<65]) =
        snd (foldl (cai_step ca (how_synon ca) nncod) (tab, Finite 0, 0) [1..<65])"
    using assms by (intro cai_sim) (auto simp add: spec_cai_table_nth)
  then show ?thesis by (simp add: cai_loop_def case_prod_beta)
qed


lemma cai_out_no_files:
  "cai_out no_files nncod s =
     Inr (fst (cai_loop (pcu_ca s) (pcai_cai_val s) nncod),
          s\<lparr>cai_ttt := True,
             pcai_cai_val := snd (cai_loop (pcu_ca s) (pcai_cai_val s) nncod)\<rparr>)"
  by (cases "cai_ttt s") (simp_all add: cai_out_def no_files_def case_prod_beta)

lemma fop_out_no_files:
  "fop_out no_files nncod s =
     (let h = (if first_call_fop s
               then fop_has_opt_info (pcu_ca s) (how_synon (pcu_ca s)) (pfop_fop_cod s)
               else has_opt_info_fop s)
      in case fop_value (pcu_ca s) (pfop_fop_cod s) h nncod of
           Inl e \<Rightarrow> Inl e
         | Inr v \<Rightarrow> Inr (Number v, s\<lparr>has_opt_info_fop := h, first_call_fop := False\<rparr>))"
  by (cases "first_call_fop s") (simp_all add: fop_out_def no_files_def split: sum.splits)

lemma cbi_out_no_files:
  "cbi_out no_files nncod nnaa s =
     (let h = (if first_call_cbi s
               then cbi_has_opt_info (pcu_ca s) (how_synon (pcu_ca s)) (pcbi_fop_cod s)
               else has_opt_info_cbi s)
      in case cbi_value (pcu_ca s) (pcbi_fop_cod s) h nncod nnaa of
           Inl e \<Rightarrow> Inl e
         | Inr v \<Rightarrow> Inr (Number v, s\<lparr>has_opt_info_cbi := h, first_call_cbi := False\<rparr>))"
  by (cases "first_call_cbi s") (simp_all add: cbi_out_def no_files_def split: sum.splits)

lemma codon_error_3:
  "codon_error z y 3 pm ca st =
     Inr (fst (count_stops ca (ncod st)),
          if warn pm then [NcNotCalculated (if z = 3 then 4 else z) y] else [], st)"
  by (simp add: codon_error_def case_prod_beta)

lemma enc_out_frame:
  "\<exists>v ws. \<forall>st. enc_out pm ca nncod nnaa st = Inr (v, ws, st)"
proof (cases "enc_sum (enc_arrays_of ca nncod nnaa) [2..<9]
                (real (fold_arr (enc_arrays_of ca nncod nnaa) ! 1))")
  case (Inl zy)
  obtain z y where zy: "zy = (z, y)" by (cases zy)
  show ?thesis
    unfolding enc_out_def Let_def Inl zy by (simp add: codon_error_3)
next
  case (Inr enc_tot)
  show ?thesis
    unfolding enc_out_def Let_def Inr by simp
qed

lemma cutab_out_codon_tot:
  "cutab_out pm ca nncod nnaa st =
     Inr (concat (map (\<lambda>x. [Number (real_of_int (int_of_long (nncod ! x))),
                            Printed (if nncod ! x \<noteq> 0
                                     then c_mul (c_div (Finite (real_of_int (nncod ! x)))
                                                       (Finite (real_of_int (nnaa ! (ca ! x)))))
                                                (Finite (real (how_synon ca ! x)))
                                     else Finite 0)]) [1..<65]) @
          [Number (real_of_int (fst (count_stops ca (ncod st))))],
          st\<lparr>codon_tot := fst (count_stops ca (ncod st))\<rparr>)"
  by (simp add: cutab_out_def codon_error_def Let_def split: prod.splits)


lemma run_no_files:
  "run pm no_files CAI s =
     Inr ([fst (cai_loop (pcu_ca s) (pcai_cai_val s) (ncod (counts s)))],
          s\<lparr>cai_ttt := True,
             pcai_cai_val := snd (cai_loop (pcu_ca s) (pcai_cai_val s) (ncod (counts s)))\<rparr>)"
  "run pm no_files CBI s =
     (let h = (if first_call_cbi s
               then cbi_has_opt_info (pcu_ca s) (how_synon (pcu_ca s)) (pcbi_fop_cod s)
               else has_opt_info_cbi s)
      in case cbi_value (pcu_ca s) (pcbi_fop_cod s) h (ncod (counts s)) (naa (counts s)) of
           Inl e \<Rightarrow> Inl e
         | Inr v \<Rightarrow> Inr ([Number v], s\<lparr>has_opt_info_cbi := h, first_call_cbi := False\<rparr>))"
  "run pm no_files Fop s =
     (let h = (if first_call_fop s
               then fop_has_opt_info (pcu_ca s) (how_synon (pcu_ca s)) (pfop_fop_cod s)
               else has_opt_info_fop s)
      in case fop_value (pcu_ca s) (pfop_fop_cod s) h (ncod (counts s)) of
           Inl e \<Rightarrow> Inl e
         | Inr v \<Rightarrow> Inr ([Number v], s\<lparr>has_opt_info_fop := h, first_call_fop := False\<rparr>))"
  "run pm fs (GC which) s = Inr (gc_out which (pcu_ca s) (ncod (counts s)), s)"
  "run pm fs SilentBase s =
     Inr (base_sil_us_out (pcu_ca s) (ncod (counts s)) (naa (counts s)), s)"
  "run pm fs Dinuc s = Inr (dinuc_out (din s), s)"
  "run pm fs Hydropathicity s = Inr (hydro_out (pap_hydro s) (naa (counts s)), s)"
  "run pm fs Aromaticity s = Inr (aromo_out (pap_aromo s) (naa (counts s)), s)"
  by (simp_all add: run_def cai_out_no_files cbi_out_no_files fop_out_no_files Let_def
      split: sum.splits)

lemma run_enc:
  "\<exists>v. \<forall>st. run pm fs Enc (s\<lparr>counts := st\<lparr>ncod := ncod (counts s), naa := naa (counts s)\<rparr>\<rparr>) =
     Inr ([v], s\<lparr>counts := st\<lparr>ncod := ncod (counts s), naa := naa (counts s)\<rparr>\<rparr>)"
proof -
  obtain v ws where
    e: "\<And>st. enc_out pm (pcu_ca s) (ncod (counts s)) (naa (counts s)) st = Inr (v, ws, st)"
    using enc_out_frame [of pm "pcu_ca s" "ncod (counts s)" "naa (counts s)"] by blast
  show ?thesis by (rule exI [of _ v]) (simp add: run_def e)
qed

lemma run_cutab:
  "run pm fs CuTab s =
     Inr (concat (map (\<lambda>x. [Number (real_of_int (int_of_long (ncod (counts s) ! x))),
                            Printed (if ncod (counts s) ! x \<noteq> 0
                                     then c_mul (c_div (Finite (real_of_int (ncod (counts s) ! x)))
                                                       (Finite (real_of_int (naa (counts s) ! (pcu_ca s ! x)))))
                                                (Finite (real (how_synon (pcu_ca s) ! x)))
                                     else Finite 0)]) [1..<65]) @
          [Number (real_of_int (fst (count_stops (pcu_ca s) (ncod (counts s)))))],
          s\<lparr>counts := (counts s)\<lparr>codon_tot := fst (count_stops (pcu_ca s) (ncod (counts s)))\<rparr>\<rparr>)"
  by (simp add: run_def Let_def cutab_out_codon_tot)


lemma later_refl: "later s s"
  by (simp add: later_def)

lemma later_counts:
  "later s t \<Longrightarrow>
   counts t = (counts t)\<lparr>ncod := ncod (counts s), naa := naa (counts s)\<rparr>"
  by (simp add: later_def)

lemma later_output:
  assumes l: "later s t" and n: "length (pcai_cai_val s) = 65"
  shows "outcome (run pm no_files c t) = outcome (run pm no_files c s)"
proof (cases c)
  case CAI
  have "fst (cai_loop (pcu_ca t) (pcai_cai_val t) (ncod (counts t))) =
        fst (cai_loop (pcu_ca s) (pcai_cai_val s) (ncod (counts s)))"
    using l n cai_loop_again [of "pcai_cai_val s" "pcu_ca s" "ncod (counts s)"]
    by (auto simp add: later_def)
  then show ?thesis unfolding CAI by (simp add: run_no_files outcome_def)
next
  case CBI
  have "(if first_call_cbi t
         then cbi_has_opt_info (pcu_ca t) (how_synon (pcu_ca t)) (pcbi_fop_cod t)
         else has_opt_info_cbi t) =
        (if first_call_cbi s
         then cbi_has_opt_info (pcu_ca s) (how_synon (pcu_ca s)) (pcbi_fop_cod s)
         else has_opt_info_cbi s)"
    using l by (auto simp add: later_def)
  moreover have "pcu_ca t = pcu_ca s" "pcbi_fop_cod t = pcbi_fop_cod s"
    "ncod (counts t) = ncod (counts s)" "naa (counts t) = naa (counts s)"
    using l by (simp_all add: later_def)
  ultimately show ?thesis
    unfolding CBI by (simp add: run_no_files outcome_def Let_def split: sum.splits)
next
  case Fop
  have "(if first_call_fop t
         then fop_has_opt_info (pcu_ca t) (how_synon (pcu_ca t)) (pfop_fop_cod t)
         else has_opt_info_fop t) =
        (if first_call_fop s
         then fop_has_opt_info (pcu_ca s) (how_synon (pcu_ca s)) (pfop_fop_cod s)
         else has_opt_info_fop s)"
    using l by (auto simp add: later_def)
  moreover have "pcu_ca t = pcu_ca s" "pfop_fop_cod t = pfop_fop_cod s"
    "ncod (counts t) = ncod (counts s)"
    using l by (simp_all add: later_def)
  ultimately show ?thesis
    unfolding Fop by (simp add: run_no_files outcome_def Let_def split: sum.splits)
next
  case Enc
  obtain v where
    e: "\<And>st. run pm no_files Enc (s\<lparr>counts := st\<lparr>ncod := ncod (counts s), naa := naa (counts s)\<rparr>\<rparr>) =
          Inr ([v], s\<lparr>counts := st\<lparr>ncod := ncod (counts s), naa := naa (counts s)\<rparr>\<rparr>)"
    using run_enc [of pm no_files s] by blast
  have f: "pcu_ca t = pcu_ca s" "ncod (counts t) = ncod (counts s)" "naa (counts t) = naa (counts s)"
    using l by (simp_all add: later_def)
  obtain v' ws' where
    e': "\<And>st. enc_out pm (pcu_ca s) (ncod (counts s)) (naa (counts s)) st = Inr (v', ws', st)"
    using enc_out_frame [of pm "pcu_ca s" "ncod (counts s)" "naa (counts s)"] by blast
  show ?thesis unfolding Enc by (simp add: run_def outcome_def f e')
next
  case (GC w)
  show ?thesis unfolding GC using l by (simp add: run_no_files outcome_def later_def)
next
  case SilentBase
  show ?thesis unfolding SilentBase using l by (simp add: run_no_files outcome_def later_def)
next
  case Dinuc
  show ?thesis unfolding Dinuc using l by (simp add: run_no_files outcome_def later_def)
next
  case Hydropathicity
  show ?thesis unfolding Hydropathicity using l by (simp add: run_no_files outcome_def later_def)
next
  case Aromaticity
  show ?thesis unfolding Aromaticity using l by (simp add: run_no_files outcome_def later_def)
next
  case CuTab
  have f: "pcu_ca t = pcu_ca s" "ncod (counts t) = ncod (counts s)" "naa (counts t) = naa (counts s)"
    using l by (simp_all add: later_def)
  show ?thesis unfolding CuTab run_cutab f by (simp add: outcome_def)
qed

text \<open>What one call, with no file of the user's, leaves of the shared data.\<close>

lemma run_step:
  assumes r: "run pm no_files c s = Inr (out, s1)" and n: "length (pcai_cai_val s) = 65"
  shows "later s s1"
    and "counts s1 =
           (if c = CuTab
            then (counts s)\<lparr>codon_tot := fst (count_stops (pcu_ca s) (ncod (counts s)))\<rparr>
            else counts s)"
    and "pcai_cai_val s1 =
           (if c = CAI then spec_cai_table (pcu_ca s) (pcai_cai_val s) else pcai_cai_val s)"
proof -
  have "later s s1 \<and>
        counts s1 =
           (if c = CuTab
            then (counts s)\<lparr>codon_tot := fst (count_stops (pcu_ca s) (ncod (counts s)))\<rparr>
            else counts s) \<and>
        pcai_cai_val s1 =
           (if c = CAI then spec_cai_table (pcu_ca s) (pcai_cai_val s) else pcai_cai_val s)"
  proof (cases c)
    case CAI
    then show ?thesis using r n by (auto simp add: run_no_files later_def cai_loop_table)
  next
    case CBI
    then show ?thesis
      using r by (auto simp add: run_no_files later_def Let_def split: sum.splits if_splits)
  next
    case Fop
    then show ?thesis
      using r by (auto simp add: run_no_files later_def Let_def split: sum.splits if_splits)
  next
    case Enc
    obtain v' ws' where
      e': "\<And>st. enc_out pm (pcu_ca s) (ncod (counts s)) (naa (counts s)) st = Inr (v', ws', st)"
      using enc_out_frame [of pm "pcu_ca s" "ncod (counts s)" "naa (counts s)"] by blast
    show ?thesis using r unfolding Enc by (auto simp add: run_def e' later_def)
  next
    case (GC w)
    then show ?thesis using r by (auto simp add: run_no_files later_def)
  next
    case SilentBase
    then show ?thesis using r by (auto simp add: run_no_files later_def)
  next
    case Dinuc
    then show ?thesis using r by (auto simp add: run_no_files later_def)
  next
    case Hydropathicity
    then show ?thesis using r by (auto simp add: run_no_files later_def)
  next
    case Aromaticity
    then show ?thesis using r by (auto simp add: run_no_files later_def)
  next
    case CuTab
    then show ?thesis using r by (auto simp add: run_cutab later_def)
  qed
  then show "later s s1"
    and "counts s1 =
           (if c = CuTab
            then (counts s)\<lparr>codon_tot := fst (count_stops (pcu_ca s) (ncod (counts s)))\<rparr>
            else counts s)"
    and "pcai_cai_val s1 =
           (if c = CAI then spec_cai_table (pcu_ca s) (pcai_cai_val s) else pcai_cai_val s)"
    by simp_all
qed

lemma later_trans:
  assumes "later s t" "later t u"
  shows "later s u"
proof -
  have "spec_cai_table (pcu_ca s) (spec_cai_table (pcu_ca s) (pcai_cai_val s)) =
        spec_cai_table (pcu_ca s) (pcai_cai_val s)"
    by (rule spec_cai_table_idem)
  then show ?thesis
    using assms unfolding later_def by (elim conjE) (simp, metis)
qed


lemma later_length:
  "later s t \<Longrightarrow> length (pcai_cai_val t) = length (pcai_cai_val s)"
  by (auto simp add: later_def)

lemma run_seq_later:
  assumes "later s t" "length (pcai_cai_val s) = 65" "run_seq pm no_files cs t = Inr (outs, t')"
  shows "map Inr outs = map (\<lambda>c. outcome (run pm no_files c s)) cs \<and> later s t' \<and>
     counts t' =
       (if CuTab \<in> set cs
        then (counts t)\<lparr>codon_tot := fst (count_stops (pcu_ca t) (ncod (counts t)))\<rparr>
        else counts t) \<and>
     pcai_cai_val t' =
       (if CAI \<in> set cs then spec_cai_table (pcu_ca t) (pcai_cai_val t) else pcai_cai_val t)"
  using assms
proof (induction cs arbitrary: t outs)
  case Nil
  then show ?case by simp
next
  case (Cons c cs)
  from Cons.prems(3) obtain out t1 outs1 where
    r: "run pm no_files c t = Inr (out, t1)" and rs: "run_seq pm no_files cs t1 = Inr (outs1, t')"
    and o: "outs = out # outs1"
    by (auto split: sum.splits prod.splits)
  have lt: "length (pcai_cai_val t) = 65"
    using later_length [OF Cons.prems(1)] Cons.prems(2) by simp
  note st = run_step [OF r lt]
  have l1: "later s t1" using Cons.prems(1) st(1) by (rule later_trans)
  note ih = Cons.IH [OF l1 Cons.prems(2) rs]
  have hd: "Inr out = outcome (run pm no_files c s)"
    using later_output [OF Cons.prems(1) Cons.prems(2), of pm c] r by (simp add: outcome_def)
  have same: "pcu_ca t1 = pcu_ca t" "ncod (counts t1) = ncod (counts t)"
    using st(1) by (simp_all add: later_def)
  have c1: "counts t' =
       (if CuTab \<in> set (c # cs)
        then (counts t)\<lparr>codon_tot := fst (count_stops (pcu_ca t) (ncod (counts t)))\<rparr>
        else counts t)"
    using ih st(2) same by simp
  have c2: "pcai_cai_val t' =
       (if CAI \<in> set (c # cs) then spec_cai_table (pcu_ca t) (pcai_cai_val t)
        else pcai_cai_val t)"
    using ih st(3) same by (simp add: spec_cai_table_idem)
  show ?case using ih hd o c1 c2 by simp
qed

lemma load_cai_file_length: "load_cai_file src = Inr tab \<Longrightarrow> length tab = 65"
  by (auto simp add: load_cai_file_def split: sum.splits if_splits)

lemma cai_first_call:
  assumes "\<not> cai_ttt s" "caifile fs = Some src" "load_cai_file src = Inr tab"
  shows "run pm fs CAI s =
     Inr ([fst (cai_loop (pcu_ca s) tab (ncod (counts s)))],
          s\<lparr>user_cai := spec_cai_table (pcu_ca s) tab, cai_ttt := True\<rparr>)"
  using assms cai_loop_table [OF load_cai_file_length [OF assms(3)], of "pcu_ca s" "ncod (counts s)"]
  by (simp add: run_def cai_out_def Let_def case_prod_beta)

text \<open>
  The user's weights are used by the call that reads them and by no other: \<^verbatim>\<open>pcai\<close> is
  a local pointer, and the next call finds \<^verbatim>\<open>cai_ttt\<close> set and works on the built-in
  table of \<^verbatim>\<open>pm->pcai\<close>. (\<^verbatim>\<open>fop_out\<close> and \<^verbatim>\<open>cbi_out\<close> do the same with \<^verbatim>\<open>pfop\<close> and
  \<^verbatim>\<open>pcbi\<close>, and keep the \<^verbatim>\<open>has_opt_info\<close> of the user's table.)
\<close>

lemma user_weights_first_call_only:
  assumes "\<not> cai_ttt s" "caifile fs = Some src" "load_cai_file src = Inr tab"
  shows "\<exists>s1 s2.
     run pm fs CAI s = Inr ([fst (cai_loop (pcu_ca s) tab (ncod (counts s)))], s1) \<and>
     run pm fs CAI s1 =
       Inr ([fst (cai_loop (pcu_ca s) (pcai_cai_val s) (ncod (counts s)))], s2)"
  using cai_first_call [OF assms, of pm]
  by (simp add: run_def cai_out_def Let_def case_prod_beta)

text \<open>
  C9, as the code has it. With no file of the user's, calculators called one after the
  other, none of them ending the programme, print what each of them prints when called
  alone on the data they were first handed: the order and the repetitions make no
  difference to what is printed. The shared data are not left as they were.
  \<^verbatim>\<open>cai_out\<close> writes \<^verbatim>\<open>0.01F\<close> over every weight below 0.0001 of a codon that is
  neither a stop nor without synonym, in the table it works on: the built-in table, or
  the user's table in the call that has loaded it. \<^verbatim>\<open>cutab_out\<close> overwrites
  \<^verbatim>\<open>codon_tot\<close> with the sum of \<^verbatim>\<open>ncod[1..64]\<close>. The other counters and the other tables
  stay as they were.
\<close>

theorem calculators_frame:
  "(run_seq pm no_files cs s = Inr (outs, s') \<and> length (pcai_cai_val s) = 65 \<longrightarrow>
      map Inr outs = map (\<lambda>c. outcome (run pm no_files c s)) cs \<and>
      counts s' =
        (if CuTab \<in> set cs
         then (counts s)\<lparr>codon_tot := fst (count_stops (pcu_ca s) (ncod (counts s)))\<rparr>
         else counts s) \<and>
      pcai_cai_val s' =
        (if CAI \<in> set cs then spec_cai_table (pcu_ca s) (pcai_cai_val s) else pcai_cai_val s) \<and>
      din s' = din s \<and> pcu_ca s' = pcu_ca s \<and>
      pfop_fop_cod s' = pfop_fop_cod s \<and> pcbi_fop_cod s' = pcbi_fop_cod s \<and>
      pap_hydro s' = pap_hydro s \<and> pap_aromo s' = pap_aromo s) \<and>
   (\<not> cai_ttt s \<and> caifile fs = Some src \<and> load_cai_file src = Inr tab \<longrightarrow>
      run pm fs CAI s =
        Inr ([fst (cai_loop (pcu_ca s) tab (ncod (counts s)))],
             s\<lparr>user_cai := spec_cai_table (pcu_ca s) tab, cai_ttt := True\<rparr>))"
proof (rule conjI; rule impI)
  assume a: "run_seq pm no_files cs s = Inr (outs, s') \<and> length (pcai_cai_val s) = 65"
  note f = run_seq_later [OF later_refl conjunct2 [OF a] conjunct1 [OF a]]
  then have "later s s'" by simp
  then have "din s' = din s \<and> pcu_ca s' = pcu_ca s \<and>
     pfop_fop_cod s' = pfop_fop_cod s \<and> pcbi_fop_cod s' = pcbi_fop_cod s \<and>
     pap_hydro s' = pap_hydro s \<and> pap_aromo s' = pap_aromo s"
    by (simp add: later_def)
  then show "map Inr outs = map (\<lambda>c. outcome (run pm no_files c s)) cs \<and>
      counts s' =
        (if CuTab \<in> set cs
         then (counts s)\<lparr>codon_tot := fst (count_stops (pcu_ca s) (ncod (counts s)))\<rparr>
         else counts s) \<and>
      pcai_cai_val s' =
        (if CAI \<in> set cs then spec_cai_table (pcu_ca s) (pcai_cai_val s) else pcai_cai_val s) \<and>
      din s' = din s \<and> pcu_ca s' = pcu_ca s \<and>
      pfop_fop_cod s' = pfop_fop_cod s \<and> pcbi_fop_cod s' = pcbi_fop_cod s \<and>
      pap_hydro s' = pap_hydro s \<and> pap_aromo s' = pap_aromo s"
    using f by simp
next
  assume "\<not> cai_ttt s \<and> caifile fs = Some src \<and> load_cai_file src = Inr tab"
  then show "run pm fs CAI s =
        Inr ([fst (cai_loop (pcu_ca s) tab (ncod (counts s)))],
             s\<lparr>user_cai := spec_cai_table (pcu_ca s) tab, cai_ttt := True\<rparr>)"
    using cai_first_call [of s fs src tab pm] by simp
qed

lemma example_runs:
  "\<exists>outs s'. run_seq pm no_files [CAI, CuTab, CAI] s = Inr (outs, s')"
  by (simp add: run_no_files run_cutab)

lemma counted_1: "cai_counted universal_ca 1"
  by code_simp

lemma example_table:
  "spec_cai_table universal_ca (Finite 0 # Finite 0 # replicate 63 (Finite 1)) =
     Finite 0 # Finite float_0_01 # replicate 63 (Finite 1)"
proof (rule nth_equalityI)
  show "length (spec_cai_table universal_ca (Finite 0 # Finite 0 # replicate 63 (Finite 1))) =
        length (Finite 0 # Finite float_0_01 # replicate 63 (Finite 1))"
    by simp
next
  fix i
  assume "i < length (spec_cai_table universal_ca (Finite 0 # Finite 0 # replicate 63 (Finite 1)))"
  then have i: "i < 65" by simp
  consider "i = 0" | "i = 1" | "2 \<le> i" by linarith
  then show "spec_cai_table universal_ca (Finite 0 # Finite 0 # replicate 63 (Finite 1)) ! i =
             (Finite 0 # Finite float_0_01 # replicate 63 (Finite 1)) ! i"
  proof cases
    case 1
    then show ?thesis by (simp add: spec_cai_table_nth)
  next
    case 2
    then show ?thesis using counted_1 by (simp add: spec_cai_table_nth cai_clamp_def)
  next
    case 3
    then show ?thesis using i by (simp add: spec_cai_table_nth cai_clamp_def nth_Cons')
  qed
qed

lemma example_stops: "fst (count_stops universal_ca (ncod (counts example_shared))) = 0"
  by (simp add: count_stops_fst example_shared_def zero_counts_def clean_up_def sum_range_def
      replicate_numeral)

lemma example_file:
  "load_cai_file (numbers (0 # replicate 63 1)) =
     Inr (Finite 0 # Finite 0 # replicate 63 (Finite 1))"
  by (simp add: load_cai_file_spec list_all_length nth_Cons')

theorem calculators_frame_witness:
  "length (pcai_cai_val example_shared) = 65 \<and>
   (\<exists>outs s'. run_seq \<lparr>warn = True, totals = False\<rparr> no_files [CAI, CuTab, CAI] example_shared =
        Inr (outs, s') \<and>
      map Inr outs =
        map (\<lambda>c. outcome (run \<lparr>warn = True, totals = False\<rparr> no_files c example_shared))
          [CAI, CuTab, CAI] \<and>
      codon_tot (counts s') = 0 \<and>
      pcai_cai_val s' = Finite 0 # Finite float_0_01 # replicate 63 (Finite 1)) \<and>
   \<not> cai_ttt example_shared \<and>
   load_cai_file (numbers (0 # replicate 63 1)) =
     Inr (Finite 0 # Finite 0 # replicate 63 (Finite 1)) \<and>
   (\<exists>out s'. run \<lparr>warn = True, totals = False\<rparr>
                \<lparr>caifile = Some (numbers (0 # replicate 63 1)), fopfile = None, cbifile = None\<rparr>
                CAI example_shared = Inr (out, s') \<and>
      user_cai s' = Finite 0 # Finite float_0_01 # replicate 63 (Finite 1))"
proof -
  obtain outs s' where
    r: "run_seq \<lparr>warn = True, totals = False\<rparr> no_files [CAI, CuTab, CAI] example_shared =
          Inr (outs, s')"
    using example_runs by blast
  have l: "length (pcai_cai_val example_shared) = 65" by (simp add: example_shared_def)
  have c: "\<not> cai_ttt example_shared" by (simp add: example_shared_def)
  have t: "spec_cai_table (pcu_ca example_shared) (pcai_cai_val example_shared) =
           Finite 0 # Finite float_0_01 # replicate 63 (Finite 1)"
    "spec_cai_table (pcu_ca example_shared) (Finite 0 # Finite 0 # replicate 63 (Finite 1)) =
           Finite 0 # Finite float_0_01 # replicate 63 (Finite 1)"
    using example_table by (simp_all add: example_shared_def)
  have k: "fst (count_stops (pcu_ca example_shared) (ncod (counts example_shared))) = 0"
    using example_stops by (simp add: example_shared_def)
  from calculators_frame
    [of "\<lparr>warn = True, totals = False\<rparr>" "[CAI, CuTab, CAI]" example_shared outs s'
        "\<lparr>caifile = Some (numbers (0 # replicate 63 1)), fopfile = None, cbifile = None\<rparr>"
        "numbers (0 # replicate 63 1)" "Finite 0 # Finite 0 # replicate 63 (Finite 1)"]
  show ?thesis
    using r l c example_file by (simp add: t k)
qed

text \<open>
  The claim as stated fails on the frame. \<^verbatim>\<open>cai_out\<close>, having loaded the weights of a
  file of a 0 and sixty-three 1s, leaves \<^verbatim>\<open>0.01F\<close> in the loaded table where the weight
  of codon 1 was 0; and after \<open>NNN\<close> has been counted, \<^verbatim>\<open>cutab_out\<close> leaves \<^verbatim>\<open>codon_tot\<close>
  at 0 where it was 1.
\<close>

theorem calculators_frame_counterexample:
  "load_cai_file (numbers (0 # replicate 63 1)) =
     Inr (Finite 0 # Finite 0 # replicate 63 (Finite 1)) \<and>
   (\<exists>out s'. run \<lparr>warn = True, totals = False\<rparr>
                \<lparr>caifile = Some (numbers (0 # replicate 63 1)), fopfile = None, cbifile = None\<rparr>
                CAI example_shared = Inr (out, s') \<and>
      user_cai s' ! 1 = Finite float_0_01) \<and>
   (case codon_usage_tot universal_ca ''NNN'' zero_counts of
      Inl e \<Rightarrow> False
    | Inr (ic, m, st) \<Rightarrow> st = counts example_shared) \<and>
   (\<exists>out s'. run \<lparr>warn = True, totals = False\<rparr> no_files CuTab example_shared = Inr (out, s') \<and>
      codon_tot (counts example_shared) = 1 \<and> codon_tot (counts s') = 0)"
proof (intro conjI)
  show "load_cai_file (numbers (0 # replicate 63 1)) =
     Inr (Finite 0 # Finite 0 # replicate 63 (Finite 1))"
    by (rule example_file)
  have c: "\<not> cai_ttt example_shared" by (simp add: example_shared_def)
  have t: "spec_cai_table (pcu_ca example_shared) (Finite 0 # Finite 0 # replicate 63 (Finite 1)) =
           Finite 0 # Finite float_0_01 # replicate 63 (Finite 1)"
    using example_table by (simp add: example_shared_def)
  show "\<exists>out s'. run \<lparr>warn = True, totals = False\<rparr>
                \<lparr>caifile = Some (numbers (0 # replicate 63 1)), fopfile = None, cbifile = None\<rparr>
                CAI example_shared = Inr (out, s') \<and>
      user_cai s' ! 1 = Finite float_0_01"
    using cai_first_call [OF c _ example_file,
        of "\<lparr>caifile = Some (numbers (0 # replicate 63 1)), fopfile = None, cbifile = None\<rparr>"
           "\<lparr>warn = True, totals = False\<rparr>"]
    by (simp add: t)
  show "case codon_usage_tot universal_ca ''NNN'' zero_counts of
      Inl e \<Rightarrow> False
    | Inr (ic, m, st) \<Rightarrow> st = counts example_shared"
    by (simp add: run_simps example_shared_def)
  have k: "fst (count_stops (pcu_ca example_shared) (ncod (counts example_shared))) = 0"
    using example_stops by (simp add: example_shared_def)
  show "\<exists>out s'. run \<lparr>warn = True, totals = False\<rparr> no_files CuTab example_shared = Inr (out, s') \<and>
      codon_tot (counts example_shared) = 1 \<and> codon_tot (counts s') = 0"
    by (simp add: run_cutab k) (simp add: example_shared_def)
qed

end
